theory Spec2Isabelle
  imports Main "HOL-Library.Multiset" "HOL-Library.Sublist"
begin

section \<open>Data model of kompresor.py\<close>

text \<open>
  A Python \<^verbatim>\<open>str\<close> is a \<^typ>\<open>string\<close>; only equality of characters is used by the
  program. A symbol is what the program uses as a dictionary key: iterating over the
  input text yields one-character strings, and the decompressor reads keys with
  \<^verbatim>\<open>f.read(1).decode()\<close>. Bit streams are strings over the characters 0 and 1.
\<close>

type_synonym symbol = string

datatype py_error = IndexError | KeyError | AttributeError | ValueError

text \<open>
  \<^verbatim>\<open>class HuffmanNode\<close>: the four fields \<^verbatim>\<open>char\<close>, \<^verbatim>\<open>freq\<close>, \<^verbatim>\<open>left\<close>, \<^verbatim>\<open>right\<close>.
  \<^verbatim>\<open>None\<close> is \<^const>\<open>None\<close>. Frequencies are counts (\<^verbatim>\<open>+= 1\<close> from zero) or
  unsigned four-byte values (\<^verbatim>\<open>int.from_bytes\<close>), hence natural numbers.
\<close>

datatype node =
  HuffmanNode (char: "symbol option") (freq: nat) (left: "node option") (right: "node option")

text \<open>\<^verbatim>\<open>__lt__\<close>: nodes are compared by frequency only.\<close>

definition lt :: "node \<Rightarrow> node \<Rightarrow> bool" where
  "lt self other = (freq self < freq other)"

text \<open>
  Truth value of the \<^verbatim>\<open>char\<close> field in \<^verbatim>\<open>if node.char:\<close>: \<^verbatim>\<open>None\<close> and the empty
  string are false, every other string is true.
\<close>

definition truthy :: "symbol option \<Rightarrow> bool" where
  "truthy c = (case c of None \<Rightarrow> False | Some s \<Rightarrow> s \<noteq> [])"

section \<open>build\_frequency\_dict\<close>

text \<open>
  The dictionary keeps insertion order, and \<^verbatim>\<open>frequency.items()\<close> later seeds the
  queue in that order, so the table is an association list. \<^verbatim>\<open>frequency[char] += 1\<close>
  on a \<^verbatim>\<open>defaultdict(int)\<close> updates an existing entry in place and appends a new key
  with count 1.
\<close>

fun incr :: "symbol \<Rightarrow> (symbol \<times> nat) list \<Rightarrow> (symbol \<times> nat) list" where
  "incr k [] = [(k, 1)]"
| "incr k ((k', v) # kvs) = (if k = k' then (k', v + 1) # kvs else (k', v) # incr k kvs)"

fun frequency_loop :: "string \<Rightarrow> (symbol \<times> nat) list \<Rightarrow> (symbol \<times> nat) list" where
  "frequency_loop [] frequency = frequency"
| "frequency_loop (c # cs) frequency = frequency_loop cs (incr [c] frequency)"

definition build_frequency_dict :: "string \<Rightarrow> (symbol \<times> nat) list" where
  "build_frequency_dict data = frequency_loop data []"

section \<open>heapq\<close>

text \<open>
  The queue is a Python list handled by the standard library module \<^verbatim>\<open>heapq\<close>
  (CPython, \<^verbatim>\<open>Lib/heapq.py\<close>): \<^verbatim>\<open>_siftdown\<close>, \<^verbatim>\<open>_siftup\<close>, \<^verbatim>\<open>heappush\<close>,
  \<^verbatim>\<open>heappop\<close>, \<^verbatim>\<open>heapify\<close>. The helpers are only called with positions inside the
  list (after \<^verbatim>\<open>append\<close>, after the emptiness test, for \<^verbatim>\<open>i < n // 2\<close>), and every
  index they compute is tested against \<^verbatim>\<open>endpos\<close> or lies below \<^verbatim>\<open>pos\<close>.
\<close>

function siftdown_loop :: "node list \<Rightarrow> node \<Rightarrow> nat \<Rightarrow> nat \<Rightarrow> node list" where
  "siftdown_loop heap newitem startpos pos =
     (if pos > startpos then
        (let parentpos = (pos - 1) div 2;
             parent = heap ! parentpos
         in if lt newitem parent
            then siftdown_loop (heap[pos := parent]) newitem startpos parentpos
            else heap[pos := newitem])
      else heap[pos := newitem])"
  by pat_completeness auto
termination
  by (relation "measure (\<lambda>(heap, newitem, startpos, pos). pos)") auto

declare siftdown_loop.simps [simp del]

definition siftdown :: "node list \<Rightarrow> nat \<Rightarrow> nat \<Rightarrow> node list" where
  "siftdown heap startpos pos = siftdown_loop heap (heap ! pos) startpos pos"

text \<open>The first loop of \<^verbatim>\<open>_siftup\<close>: returns the list and the final \<^verbatim>\<open>pos\<close>.\<close>

function siftup_loop :: "node list \<Rightarrow> nat \<Rightarrow> nat \<Rightarrow> node list \<times> nat" where
  "siftup_loop heap endpos pos =
     (let childpos = 2 * pos + 1
      in if childpos < endpos then
           (let rightpos = childpos + 1;
                childpos = (if rightpos < endpos \<and> \<not> lt (heap ! childpos) (heap ! rightpos)
                            then rightpos else childpos)
            in siftup_loop (heap[pos := heap ! childpos]) endpos childpos)
         else (heap, pos))"
  by pat_completeness auto
termination
  by (relation "measure (\<lambda>(heap, endpos, pos). endpos - pos)") (auto simp: Let_def)

declare siftup_loop.simps [simp del]

definition siftup :: "node list \<Rightarrow> nat \<Rightarrow> node list" where
  "siftup heap pos =
     (let endpos = length heap;
          startpos = pos;
          newitem = heap ! pos
      in case siftup_loop heap endpos pos of
           (heap, pos) \<Rightarrow> siftdown (heap[pos := newitem]) startpos pos)"

definition heappush :: "node list \<Rightarrow> node \<Rightarrow> node list" where
  "heappush heap item = (let heap = heap @ [item] in siftdown heap 0 (length heap - 1))"

text \<open>\<^verbatim>\<open>heap.pop()\<close> raises \<^verbatim>\<open>IndexError\<close> on the empty list.\<close>

definition heappop :: "node list \<Rightarrow> py_error + node \<times> node list" where
  "heappop heap =
     (if heap = [] then Inl IndexError
      else (let lastelt = last heap;
                heap = butlast heap
            in if heap \<noteq> [] then
                 (let returnitem = heap ! 0;
                      heap = heap[0 := lastelt]
                  in Inr (returnitem, siftup heap 0))
               else Inr (lastelt, heap)))"

text \<open>\<^verbatim>\<open>for i in reversed(range(n//2)): _siftup(x, i)\<close>; the counter is \<open>i + 1\<close>.\<close>

fun heapify_loop :: "nat \<Rightarrow> node list \<Rightarrow> node list" where
  "heapify_loop 0 x = x"
| "heapify_loop (Suc i) x = heapify_loop i (siftup x i)"

definition heapify :: "node list \<Rightarrow> node list" where
  "heapify x = heapify_loop (length x div 2) x"

subsection \<open>Lengths and contents of the queue\<close>

lemma length_siftdown_loop [simp]: "length (siftdown_loop heap newitem startpos pos) = length heap"
  by (induction heap newitem startpos pos rule: siftdown_loop.induct)
     (subst siftdown_loop.simps, simp add: Let_def)

lemma mset_siftdown_loop:
  "pos < length heap \<Longrightarrow> mset (siftdown_loop heap newitem startpos pos) = mset (heap[pos := newitem])"
proof (induction heap newitem startpos pos rule: siftdown_loop.induct)
  case (1 heap newitem startpos pos)
  let ?q = "(pos - 1) div 2"
  show ?case
  proof (cases "pos > startpos \<and> lt newitem (heap ! ?q)")
    case True
    then have q: "?q < pos" by auto
    with "1.prems" have ql: "?q < length heap" by simp
    have "mset (siftdown_loop heap newitem startpos pos)
            = mset (siftdown_loop (heap[pos := heap ! ?q]) newitem startpos ?q)"
      using True by (subst siftdown_loop.simps) (simp add: Let_def)
    also have "\<dots> = mset (heap[pos := heap ! ?q, ?q := newitem])"
      using True ql "1.IH"[OF _ refl refl] by simp
    also have "\<dots> = mset (heap[pos := newitem])"
      using q ql "1.prems" by (simp add: mset_update nth_list_update)
    finally show ?thesis .
  next
    case False
    then show ?thesis by (subst siftdown_loop.simps) (auto simp: Let_def)
  qed
qed

lemma length_siftdown [simp]: "length (siftdown heap startpos pos) = length heap"
  by (simp add: siftdown_def)

lemma mset_siftdown: "pos < length heap \<Longrightarrow> mset (siftdown heap startpos pos) = mset heap"
proof -
  assume p: "pos < length heap"
  have "heap[pos := heap ! pos] = heap" by simp
  with p show ?thesis unfolding siftdown_def by (simp only: mset_siftdown_loop)
qed

lemma siftup_loop_props:
  "siftup_loop heap endpos pos = (heap', pos') \<Longrightarrow> pos < endpos \<Longrightarrow> endpos \<le> length heap \<Longrightarrow>
     length heap' = length heap \<and> pos' < endpos \<and> pos \<le> pos' \<and>
     (\<forall>x. mset (heap'[pos' := x]) = mset (heap[pos := x]))"
proof (induction heap endpos pos arbitrary: heap' pos' rule: siftup_loop.induct)
  case (1 heap endpos pos)
  let ?l = "2 * pos + 1"
  let ?c = "if ?l + 1 < endpos \<and> \<not> lt (heap ! ?l) (heap ! (?l + 1)) then ?l + 1 else ?l"
  show ?case
  proof (cases "?l < endpos")
    case True
    then have c: "?c < endpos" "pos < ?c" by auto
    have "siftup_loop heap endpos pos = siftup_loop (heap[pos := heap ! ?c]) endpos ?c"
      using True by (subst siftup_loop.simps) (simp only: Let_def if_True)
    with "1.prems"(1) have step: "siftup_loop (heap[pos := heap ! ?c]) endpos ?c = (heap', pos')"
      by simp
    have IH: "length heap' = length heap \<and> pos' < endpos \<and> ?c \<le> pos' \<and>
        (\<forall>x. mset (heap'[pos' := x]) = mset (heap[pos := heap ! ?c, ?c := x]))"
      using "1.IH"[OF refl True refl refl step c(1)] "1.prems"(3) by simp
    have "mset (heap[pos := heap ! ?c, ?c := x]) = mset (heap[pos := x])" for x
      using c "1.prems" by (simp add: mset_update nth_list_update)
    with IH c show ?thesis by auto
  next
    case False
    with "1.prems" show ?thesis by (subst (asm) siftup_loop.simps) (auto simp: Let_def)
  qed
qed

lemma length_siftup [simp]: "pos < length heap \<Longrightarrow> length (siftup heap pos) = length heap"
proof -
  assume p: "pos < length heap"
  obtain heap' pos' where s: "siftup_loop heap (length heap) pos = (heap', pos')"
    by (cases "siftup_loop heap (length heap) pos")
  from siftup_loop_props[OF s p] have "length heap' = length heap" by simp
  with s show ?thesis by (simp add: siftup_def)
qed

lemma mset_siftup: "pos < length heap \<Longrightarrow> mset (siftup heap pos) = mset heap"
proof -
  assume p: "pos < length heap"
  obtain heap' pos' where s: "siftup_loop heap (length heap) pos = (heap', pos')"
    by (cases "siftup_loop heap (length heap) pos")
  from siftup_loop_props[OF s p] have
    l: "length heap' = length heap" "pos' < length heap"
    and m: "mset (heap'[pos' := heap ! pos]) = mset (heap[pos := heap ! pos])" by auto
  show ?thesis using s l m by (simp add: siftup_def mset_siftdown)
qed

lemma length_heappush [simp]: "length (heappush heap item) = Suc (length heap)"
  by (simp add: heappush_def Let_def)

lemma mset_heappush: "mset (heappush heap item) = add_mset item (mset heap)"
  by (simp add: heappush_def Let_def mset_siftdown)

lemma heappop_empty: "heappop [] = Inl IndexError"
  by (simp add: heappop_def)

lemma heappop_Inr:
  assumes "heappop heap = Inr (x, heap')"
  shows "heap \<noteq> [] \<and> length heap = Suc (length heap') \<and> mset heap = add_mset x (mset heap')"
proof -
  from assms have ne: "heap \<noteq> []" by (auto simp: heappop_def)
  then obtain bl l where h: "heap = bl @ [l]" by (metis append_butlast_last_id)
  show ?thesis
  proof (cases "bl = []")
    case True
    with assms h show ?thesis by (simp add: heappop_def)
  next
    case False
    then have "0 < length bl" by simp
    with assms h False show ?thesis
      by (auto simp: heappop_def Let_def mset_siftup mset_update)
  qed
qed

lemma heappop_nonempty: "heap \<noteq> [] \<Longrightarrow> \<exists>x heap'. heappop heap = Inr (x, heap')"
  by (simp add: heappop_def Let_def)

lemma heapify_loop_props: "i \<le> length x \<Longrightarrow> length (heapify_loop i x) = length x \<and> mset (heapify_loop i x) = mset x"
  by (induction i arbitrary: x) (auto simp: mset_siftup)

lemma length_heapify [simp]: "length (heapify x) = length x"
  by (simp add: heapify_def heapify_loop_props)

lemma mset_heapify [simp]: "mset (heapify x) = mset x"
  by (simp add: heapify_def heapify_loop_props)

section \<open>build\_huffman\_tree\<close>

text \<open>The \<^verbatim>\<open>while len(priority_queue) > 1\<close> loop; it returns the final queue.\<close>

function merge_loop :: "node list \<Rightarrow> py_error + node list" where
  "merge_loop priority_queue =
     (if length priority_queue > 1 then
        (case heappop priority_queue of
           Inl e \<Rightarrow> Inl e
         | Inr (l, queue1) \<Rightarrow>
             (case heappop queue1 of
                Inl e \<Rightarrow> Inl e
              | Inr (r, queue2) \<Rightarrow>
                  (let merged = HuffmanNode None (freq l + freq r) (Some l) (Some r)
                   in merge_loop (heappush queue2 merged))))
      else Inr priority_queue)"
  by pat_completeness auto
termination
proof (relation "measure length")
  fix priority_queue :: "node list" and x2 l queue1 x2a r queue2 merged
  assume "heappop priority_queue = Inr x2" "(l, queue1) = x2"
    "heappop queue1 = Inr x2a" "(r, queue2) = x2a"
  then have "length priority_queue = Suc (length queue1)" "length queue1 = Suc (length queue2)"
    using heappop_Inr[of priority_queue l queue1] heappop_Inr[of queue1 r queue2] by auto
  then show "(heappush queue2 merged, priority_queue) \<in> measure length" by simp
qed simp

declare merge_loop.simps [simp del]

text \<open>\<^verbatim>\<open>priority_queue[0]\<close> raises \<^verbatim>\<open>IndexError\<close> on the empty list.\<close>

definition build_huffman_tree :: "(symbol \<times> nat) list \<Rightarrow> py_error + node" where
  "build_huffman_tree frequency =
     (let priority_queue = map (\<lambda>(c, f). HuffmanNode (Some c) f None None) frequency;
          priority_queue = heapify priority_queue
      in case merge_loop priority_queue of
           Inl e \<Rightarrow> Inl e
         | Inr priority_queue \<Rightarrow>
             (case priority_queue of [] \<Rightarrow> Inl IndexError | n # _ \<Rightarrow> Inr n))"

section \<open>build\_codes\<close>

text \<open>
  The nested helper writes into the dictionary \<^verbatim>\<open>codes\<close> of the enclosing call; the
  dictionary is passed through the recursion. \<^verbatim>\<open>if node:\<close> is the test for \<^verbatim>\<open>None\<close>.
\<close>

function build_codes_helper :: "node option \<Rightarrow> string \<Rightarrow> (symbol \<rightharpoonup> string) \<Rightarrow> (symbol \<rightharpoonup> string)" where
  "build_codes_helper None current_code codes = codes"
| "build_codes_helper (Some (HuffmanNode c f l r)) current_code codes =
     (let codes = (if truthy c then codes(the c \<mapsto> current_code) else codes);
          codes = build_codes_helper l (current_code @ ''0'') codes
      in build_codes_helper r (current_code @ ''1'') codes)"
  by pat_completeness auto
termination
  by (relation "measure (\<lambda>(n, current_code, codes). size_option size n)") auto

definition build_codes :: "node \<Rightarrow> (symbol \<rightharpoonup> string)" where
  "build_codes root = build_codes_helper (Some root) [] Map.empty"

section \<open>encode\_data\<close>

text \<open>\<^verbatim>\<open>"".join(codes[char] for char in data)\<close>; a missing key raises \<^verbatim>\<open>KeyError\<close>.\<close>

fun join_codes :: "string \<Rightarrow> (symbol \<rightharpoonup> string) \<Rightarrow> py_error + string" where
  "join_codes [] codes = Inr []"
| "join_codes (c # cs) codes =
     (case codes [c] of
        None \<Rightarrow> Inl KeyError
      | Some code \<Rightarrow>
          (case join_codes cs codes of Inl e \<Rightarrow> Inl e | Inr rest \<Rightarrow> Inr (code @ rest)))"

text \<open>\<^verbatim>\<open>f"{padding:08b}"\<close>: the binary digits, filled with zeros on the left to width 8.\<close>

definition digit :: "nat \<Rightarrow> char" where
  "digit d = (if d = 0 then CHR ''0'' else CHR ''1'')"

function bin_digits :: "nat \<Rightarrow> string" where
  "bin_digits n = (if n < 2 then [digit n] else bin_digits (n div 2) @ [digit (n mod 2)])"
  by pat_completeness auto
termination
  by (relation "measure id") auto

declare bin_digits.simps [simp del]

definition format_08b :: "nat \<Rightarrow> string" where
  "format_08b n = (let s = bin_digits n in replicate (8 - length s) CHR ''0'' @ s)"

definition encode_data :: "string \<Rightarrow> (symbol \<rightharpoonup> string) \<Rightarrow> py_error + string" where
  "encode_data data codes =
     (case join_codes data codes of
        Inl e \<Rightarrow> Inl e
      | Inr encoded_data \<Rightarrow>
          (let padding = 8 - length encoded_data mod 8;
               encoded_data = encoded_data @ replicate padding CHR ''0'';
               padded_info = format_08b padding
           in Inr (padded_info @ encoded_data)))"

section \<open>decode\_data\<close>

text \<open>
  \<^verbatim>\<open>int(s, 2)\<close> on a string of binary digits; the empty string raises
  \<^verbatim>\<open>ValueError\<close>. The streams of this program hold the characters 0 and 1 only
  (they come from \<^verbatim>\<open>encode_data\<close> or from \<^verbatim>\<open>f"{...:08b}"\<close>); any other character is
  reported as \<^verbatim>\<open>ValueError\<close> here.
\<close>

fun int_base2_loop :: "nat \<Rightarrow> string \<Rightarrow> py_error + nat" where
  "int_base2_loop acc [] = Inr acc"
| "int_base2_loop acc (c # cs) =
     (if c = CHR ''0'' then int_base2_loop (2 * acc) cs
      else if c = CHR ''1'' then int_base2_loop (2 * acc + 1) cs
      else Inl ValueError)"

definition int_base2 :: "string \<Rightarrow> py_error + nat" where
  "int_base2 s = (if s = [] then Inl ValueError else int_base2_loop 0 s)"

text \<open>
  The slice \<^verbatim>\<open>encoded_data[8:-padding]\<close>. For \<^verbatim>\<open>padding = 0\<close> the stop index is
  \<^verbatim>\<open>-0 = 0\<close> and the slice is empty; otherwise the stop index counts from the end and
  is clamped at the start of the string.
\<close>

definition slice_8_to_minus :: "string \<Rightarrow> nat \<Rightarrow> string" where
  "slice_8_to_minus s padding =
     (if padding = 0 then [] else drop 8 (take (length s - padding) s))"

text \<open>
  The \<^verbatim>\<open>for bit in encoded_data\<close> loop, with the list \<^verbatim>\<open>decoded_data\<close> and the
  variable \<^verbatim>\<open>current_node\<close> as state; it returns both. Stepping to a missing child
  makes \<^verbatim>\<open>current_node\<close> \<^verbatim>\<open>None\<close>, and reading \<^verbatim>\<open>None.char\<close> raises
  \<^verbatim>\<open>AttributeError\<close>.
\<close>

fun decode_loop :: "node \<Rightarrow> node \<Rightarrow> string \<Rightarrow> symbol list \<Rightarrow> py_error + symbol list \<times> node" where
  "decode_loop root current_node [] decoded_data = Inr (decoded_data, current_node)"
| "decode_loop root current_node (b # bits) decoded_data =
     (case (if b = CHR ''0'' then left current_node else right current_node) of
        None \<Rightarrow> Inl AttributeError
      | Some current_node \<Rightarrow>
          (if truthy (char current_node)
           then decode_loop root root bits (decoded_data @ [the (char current_node)])
           else decode_loop root current_node bits decoded_data))"

definition decode_data :: "string \<Rightarrow> node \<Rightarrow> py_error + string" where
  "decode_data encoded_data root =
     (case int_base2 (take 8 encoded_data) of
        Inl e \<Rightarrow> Inl e
      | Inr padding \<Rightarrow>
          (case decode_loop root root (slice_8_to_minus encoded_data padding) [] of
             Inl e \<Rightarrow> Inl e
           | Inr (decoded_data, current_node) \<Rightarrow> Inr (concat decoded_data)))"

section \<open>Notions used in the statements\<close>

text \<open>
  A strict binary tree: a node without children carries a symbol; any other node has
  both children, carries no symbol, and its frequency is the sum of the frequencies of
  its children.
\<close>

fun strict_tree :: "node \<Rightarrow> bool" where
  "strict_tree (HuffmanNode c f None None) = (c \<noteq> None)"
| "strict_tree (HuffmanNode c f (Some a) (Some b)) =
     (c = None \<and> f = freq a + freq b \<and> strict_tree a \<and> strict_tree b)"
| "strict_tree (HuffmanNode c f _ _) = False"

text \<open>
  The leaves of a tree with their frequencies: a leaf is a node without children, and
  the table lists the \<^verbatim>\<open>char\<close> and \<^verbatim>\<open>freq\<close> fields of every leaf.
\<close>

fun leaf_table :: "node \<Rightarrow> (symbol option \<times> nat) multiset" where
  "leaf_table (HuffmanNode c f None None) = {#(c, f)#}"
| "leaf_table (HuffmanNode c f (Some a) None) = leaf_table a"
| "leaf_table (HuffmanNode c f None (Some b)) = leaf_table b"
| "leaf_table (HuffmanNode c f (Some a) (Some b)) = leaf_table a + leaf_table b"

text \<open>
  The weighted path length of a tree of nodes: the sum over the leaves of the depth of
  the leaf times its \<^verbatim>\<open>freq\<close> field.
\<close>

fun wpl_from :: "nat \<Rightarrow> node \<Rightarrow> nat" where
  "wpl_from d (HuffmanNode c f None None) = d * f"
| "wpl_from d (HuffmanNode c f (Some a) None) = wpl_from (Suc d) a"
| "wpl_from d (HuffmanNode c f None (Some b)) = wpl_from (Suc d) b"
| "wpl_from d (HuffmanNode c f (Some a) (Some b)) = wpl_from (Suc d) a + wpl_from (Suc d) b"

definition weighted_path_length :: "node \<Rightarrow> nat" where
  "weighted_path_length t = wpl_from 0 t"

section \<open>Auxiliary notions of the proofs\<close>

text \<open>The node built by one round of the loop from the two nodes it popped.\<close>

definition merged_node :: "node \<Rightarrow> node \<Rightarrow> node" where
  "merged_node l r = HuffmanNode None (freq l + freq r) (Some l) (Some r)"

text \<open>The leaves of all trees of a queue.\<close>

definition forest_table :: "node list \<Rightarrow> (symbol option \<times> nat) multiset" where
  "forest_table q = (\<Sum>n \<in># mset q. leaf_table n)"

text \<open>
  The assignments \<^verbatim>\<open>codes[node.char] = current_code\<close> that the helper makes, in the
  order in which it makes them.
\<close>

function codes_list :: "node option \<Rightarrow> string \<Rightarrow> (symbol \<times> string) list" where
  "codes_list None current_code = []"
| "codes_list (Some (HuffmanNode c f l r)) current_code =
     (if truthy c then [(the c, current_code)] else []) @
     codes_list l (current_code @ ''0'') @ codes_list r (current_code @ ''1'')"
  by pat_completeness auto
termination
  by (relation "measure (\<lambda>(n, current_code). size_option size n)") auto

text \<open>Writing a list of assignments into a dictionary, first to last.\<close>

definition store :: "(symbol \<times> string) list \<Rightarrow> (symbol \<rightharpoonup> string) \<Rightarrow> (symbol \<rightharpoonup> string)" where
  "store kvs codes = fold (\<lambda>(k, v) m. m(k \<mapsto> v)) kvs codes"

text \<open>What the loop body of \<^verbatim>\<open>decode_data\<close> does after it has moved to the child \<open>m\<close>.\<close>

definition step_into :: "node \<Rightarrow> node \<Rightarrow> string \<Rightarrow> symbol list \<Rightarrow> py_error + symbol list \<times> node" where
  "step_into root m bits acc =
     (if truthy (char m) then decode_loop root root bits (acc @ [the (char m)])
      else decode_loop root m bits acc)"

text \<open>
  Position \<open>c\<close> is a child of position \<open>j\<close> in the list that \<^verbatim>\<open>heapq\<close> treats as a
  binary tree; \<open>desc s p\<close> says that \<open>p\<close> lies in the subtree below \<open>s\<close>. The list is a
  heap from \<open>k\<close> on when no node at a position \<open>j \<ge> k\<close> is larger than a child of it.
\<close>

definition edge :: "nat \<Rightarrow> nat \<Rightarrow> bool" where
  "edge j c = (c = 2 * j + 1 \<or> c = 2 * j + 2)"

inductive desc :: "nat \<Rightarrow> nat \<Rightarrow> bool" for s where
  desc_refl: "desc s s"
| desc_step: "desc s j \<Longrightarrow> edge j c \<Longrightarrow> desc s c"

definition heap_from :: "nat \<Rightarrow> node list \<Rightarrow> bool" where
  "heap_from k h = (\<forall>j c. k \<le> j \<longrightarrow> edge j c \<longrightarrow> c < length h \<longrightarrow> freq (h ! j) \<le> freq (h ! c))"

definition up_ok :: "node list \<Rightarrow> nat \<Rightarrow> nat \<Rightarrow> bool" where
  "up_ok h s p =
     (p < length h \<and> desc s p \<and>
      (\<forall>j c. s \<le> j \<longrightarrow> edge j c \<longrightarrow> c < length h \<longrightarrow> j \<noteq> p \<longrightarrow> c \<noteq> p \<longrightarrow>
             freq (h ! j) \<le> freq (h ! c)) \<and>
      (\<forall>j c. s \<le> j \<longrightarrow> edge j p \<longrightarrow> edge p c \<longrightarrow> c < length h \<longrightarrow>
             freq (h ! j) \<le> freq (h ! c)))"

definition hole_ok :: "node list \<Rightarrow> node \<Rightarrow> nat \<Rightarrow> nat \<Rightarrow> bool" where
  "hole_ok h x s p =
     (up_ok h s p \<and> (\<forall>c. edge p c \<longrightarrow> c < length h \<longrightarrow> freq x \<le> freq (h ! c)))"

text \<open>
  A binary tree with a weight at every leaf, its leaf weights and leaf depths from left
  to right, and its weighted path length. \<open>relabel\<close> keeps the shape and writes new
  weights on the leaves.
\<close>

datatype wtree = WL nat | WN wtree wtree

fun wleaves :: "wtree \<Rightarrow> nat list" where
  "wleaves (WL w) = [w]"
| "wleaves (WN l r) = wleaves l @ wleaves r"

fun depths :: "wtree \<Rightarrow> nat list" where
  "depths (WL w) = [0]"
| "depths (WN l r) = map Suc (depths l) @ map Suc (depths r)"

fun height_w :: "wtree \<Rightarrow> nat" where
  "height_w (WL w) = 0"
| "height_w (WN l r) = Suc (max (height_w l) (height_w r))"

fun wcost :: "wtree \<Rightarrow> nat" where
  "wcost (WL w) = 0"
| "wcost (WN l r) = wcost l + wcost r + sum_list (wleaves l) + sum_list (wleaves r)"

definition dot :: "nat list \<Rightarrow> nat list \<Rightarrow> nat" where
  "dot ws ds = (\<Sum>(w, d) \<leftarrow> zip ws ds. w * d)"

fun relabel :: "wtree \<Rightarrow> nat list \<Rightarrow> wtree" where
  "relabel (WL w) ws = WL (hd ws)"
| "relabel (WN l r) ws =
     WN (relabel l (take (length (wleaves l)) ws)) (relabel r (drop (length (wleaves l)) ws))"

text \<open>The tree of weights of a tree of nodes; a node with one child is passed over.\<close>

fun abs_tree :: "node \<Rightarrow> wtree" where
  "abs_tree (HuffmanNode c f None None) = WL f"
| "abs_tree (HuffmanNode c f (Some a) None) = abs_tree a"
| "abs_tree (HuffmanNode c f None (Some b)) = abs_tree b"
| "abs_tree (HuffmanNode c f (Some a) (Some b)) = WN (abs_tree a) (abs_tree b)"

text \<open>The sum of the weighted path lengths of the trees of a queue.\<close>

definition forest_cost :: "node list \<Rightarrow> nat" where
  "forest_cost q = (\<Sum>n \<in># mset q. wcost (abs_tree n))"

section \<open>The frequency table\<close>

lemma sum_incr: "sum_list (map snd (incr k frequency)) = Suc (sum_list (map snd frequency))"
  by (induction k frequency rule: incr.induct) auto

lemma keys_incr: "fst ` set (incr k frequency) = insert k (fst ` set frequency)"
  by (induction k frequency rule: incr.induct) auto

lemma distinct_incr: "distinct (map fst frequency) \<Longrightarrow> distinct (map fst (incr k frequency))"
  by (induction k frequency rule: incr.induct) (auto simp: keys_incr)

lemma frequency_loop_props:
  "sum_list (map snd (frequency_loop data frequency)) = length data + sum_list (map snd frequency) \<and>
   fst ` set (frequency_loop data frequency) = (\<lambda>c. [c]) ` set data \<union> fst ` set frequency \<and>
   (distinct (map fst frequency) \<longrightarrow> distinct (map fst (frequency_loop data frequency)))"
proof (induction data arbitrary: frequency)
  case Nil
  show ?case by simp
next
  case (Cons c cs)
  show ?case
    using Cons[of "incr [c] frequency"] by (auto simp: sum_incr keys_incr distinct_incr)
qed

lemma build_frequency_dict_props:
  "sum_list (map snd (build_frequency_dict data)) = length data \<and>
   set (map fst (build_frequency_dict data)) = (\<lambda>c. [c]) ` set data \<and>
   distinct (map fst (build_frequency_dict data)) \<and>
   build_frequency_dict [] = []"
  using frequency_loop_props[of data "[]"] by (simp add: build_frequency_dict_def)

text \<open>
  Claim C7. For every symbol sequence the table returned by \<^verbatim>\<open>build_frequency_dict\<close>
  has counts that sum to the length of the sequence, its keys are exactly the symbols
  that occur in the sequence (each key once), and the empty sequence gives the empty
  table.
\<close>

theorem frequency_conservation:
  "sum_list (map snd (build_frequency_dict data)) = length data \<and>
   set (map fst (build_frequency_dict data)) = (\<lambda>c. [c]) ` set data \<and>
   distinct (map fst (build_frequency_dict data)) \<and>
   build_frequency_dict [] = []"
  by (rule build_frequency_dict_props)

theorem frequency_conservation_witness:
  "sum_list (map snd (build_frequency_dict ''AAAAABBBCC'')) = length ''AAAAABBBCC'' \<and>
   build_frequency_dict ''AAAAABBBCC'' = [(''A'', 5), (''B'', 3), (''C'', 2)]"
  using frequency_conservation[of "''AAAAABBBCC''"] by (simp add: build_frequency_dict_def)

section \<open>Decoding a stream whose header says zero padding\<close>

text \<open>
  Claim C9. When the first eight bits of the stream are the number 0, \<^verbatim>\<open>decode_data\<close>
  returns the empty string whatever follows: the slice \<^verbatim>\<open>encoded_data[8:-0]\<close> is
  empty, so the loop body never runs.
\<close>

theorem decode_padding_zero:
  "int_base2 (take 8 encoded_data) = Inr 0 \<Longrightarrow> decode_data encoded_data root = Inr []"
  by (simp add: decode_data_def slice_8_to_minus_def)

theorem decode_padding_zero_witness:
  "int_base2 (take 8 ''0000000010110111'') = Inr 0 \<and>
   decode_data ''0000000010110111''
     (HuffmanNode None 2 (Some (HuffmanNode (Some ''a'') 1 None None))
        (Some (HuffmanNode (Some ''b'') 1 None None))) = Inr []"
proof -
  have h: "int_base2 (take 8 ''0000000010110111'') = Inr 0" by (simp add: int_base2_def)
  show ?thesis using h decode_padding_zero[OF h] by simp
qed

section \<open>The merge loop\<close>

lemma merge_loop_stop: "length pq \<le> 1 \<Longrightarrow> merge_loop pq = Inr pq"
  by (subst merge_loop.simps) simp

lemma merge_loop_step:
  "1 < length pq \<Longrightarrow> heappop pq = Inr (l, q1) \<Longrightarrow> heappop q1 = Inr (r, q2) \<Longrightarrow>
   merge_loop pq = merge_loop (heappush q2 (merged_node l r))"
  by (subst merge_loop.simps) (simp add: merged_node_def)

lemma merge_loop_induct [case_names stop step]:
  assumes stop: "\<And>pq. length pq \<le> 1 \<Longrightarrow> P pq"
    and step: "\<And>pq l q1 r q2. 1 < length pq \<Longrightarrow> heappop pq = Inr (l, q1) \<Longrightarrow>
                 heappop q1 = Inr (r, q2) \<Longrightarrow> P (heappush q2 (merged_node l r)) \<Longrightarrow> P pq"
  shows "P pq"
proof (induction "length pq" arbitrary: pq rule: less_induct)
  case less
  show ?case
  proof (cases "length pq \<le> 1")
    case True
    then show ?thesis by (rule stop)
  next
    case False
    then have "pq \<noteq> []" by auto
    then obtain l q1 where p1: "heappop pq = Inr (l, q1)" using heappop_nonempty by blast
    then have l1: "length pq = Suc (length q1)" using heappop_Inr by blast
    with False have "q1 \<noteq> []" by auto
    then obtain r q2 where p2: "heappop q1 = Inr (r, q2)" using heappop_nonempty by blast
    then have l2: "length q1 = Suc (length q2)" using heappop_Inr by blast
    have "length (heappush q2 (merged_node l r)) < length pq" using l1 l2 by simp
    then have "P (heappush q2 (merged_node l r))" by (rule less)
    with False p1 p2 show ?thesis by (intro step[of pq l q1 r q2]) auto
  qed
qed

lemma merge_loop_result:
  "\<exists>q. merge_loop pq = Inr q \<and> length q = min 1 (length pq)"
proof (induction pq rule: merge_loop_induct)
  case (stop pq)
  then show ?case by (simp add: merge_loop_stop)
next
  case (step pq l q1 r q2)
  then show ?case by (simp add: merge_loop_step)
qed

lemma build_huffman_tree_empty: "build_huffman_tree [] = Inl IndexError"
  by (simp add: build_huffman_tree_def heapify_def merge_loop_stop)

lemma build_huffman_tree_queue:
  assumes "frequency \<noteq> []"
  shows "\<exists>t. merge_loop (heapify (map (\<lambda>(c, f). HuffmanNode (Some c) f None None) frequency)) = Inr [t]
           \<and> build_huffman_tree frequency = Inr t"
proof -
  let ?pq = "heapify (map (\<lambda>(c, f). HuffmanNode (Some c) f None None) frequency)"
  obtain q where q: "merge_loop ?pq = Inr q" "length q = min 1 (length ?pq)"
    using merge_loop_result by blast
  with assms have "length q = 1" by (cases frequency) auto
  then obtain t where "q = [t]" by (cases q) auto
  with q show ?thesis by (simp add: build_huffman_tree_def)
qed

text \<open>
  Claim C10. On the empty table \<^verbatim>\<open>build_huffman_tree\<close> fails with the
  \<^verbatim>\<open>IndexError\<close> of \<^verbatim>\<open>priority_queue[0]\<close>, and only there; on every table with at
  least one entry it returns a node.
\<close>

theorem builder_domain:
  "(build_huffman_tree frequency = Inl IndexError \<longleftrightarrow> frequency = []) \<and>
   ((\<exists>t. build_huffman_tree frequency = Inr t) \<longleftrightarrow> frequency \<noteq> [])"
  using build_huffman_tree_empty build_huffman_tree_queue[of frequency] by (cases "frequency = []") auto

theorem builder_domain_witness:
  "build_huffman_tree [] = Inl IndexError \<and>
   build_huffman_tree [(''A'', 5), (''B'', 3), (''C'', 2)] =
     Inr (HuffmanNode None 10 (Some (HuffmanNode (Some ''A'') 5 None None))
       (Some (HuffmanNode None 5 (Some (HuffmanNode (Some ''C'') 2 None None))
               (Some (HuffmanNode (Some ''B'') 3 None None)))))"
proof -
  have "build_huffman_tree [(''A'', 5), (''B'', 3), (''C'', 2)] =
     Inr (HuffmanNode None 10 (Some (HuffmanNode (Some ''A'') 5 None None))
       (Some (HuffmanNode None 5 (Some (HuffmanNode (Some ''C'') 2 None None))
               (Some (HuffmanNode (Some ''B'') 3 None None)))))"
    by code_simp
  then show ?thesis
    using builder_domain[of "[]"] builder_domain[of "[(''A'', 5), (''B'', 3), (''C'', 2)]"] by simp
qed

section \<open>Shape of the tree\<close>

lemma strict_merged: "strict_tree l \<Longrightarrow> strict_tree r \<Longrightarrow> strict_tree (merged_node l r)"
  by (simp add: merged_node_def)

lemma merge_loop_strict:
  "\<forall>n \<in># mset pq. strict_tree n \<Longrightarrow> merge_loop pq = Inr q \<Longrightarrow> \<forall>n \<in># mset q. strict_tree n"
proof (induction pq rule: merge_loop_induct)
  case (stop pq)
  then show ?case by (simp add: merge_loop_stop)
next
  case (step pq l q1 r q2)
  from heappop_Inr[OF step.hyps(2)] heappop_Inr[OF step.hyps(3)]
  have m: "mset pq = add_mset l (add_mset r (mset q2))" by simp
  with step.prems(1) have "strict_tree l" "strict_tree r" "\<forall>n \<in># mset q2. strict_tree n"
    by auto
  then have "\<forall>n \<in># mset (heappush q2 (merged_node l r)). strict_tree n"
    by (simp add: mset_heappush strict_merged)
  moreover have "merge_loop (heappush q2 (merged_node l r)) = Inr q"
    using step.prems(2) step.hyps by (simp add: merge_loop_step)
  ultimately show ?case by (rule step.IH)
qed

lemma build_huffman_tree_strict:
  "build_huffman_tree frequency = Inr t \<Longrightarrow> strict_tree t"
proof -
  assume b: "build_huffman_tree frequency = Inr t"
  then have ne: "frequency \<noteq> []" using build_huffman_tree_empty by auto
  let ?init = "map (\<lambda>(c, f). HuffmanNode (Some c) f None None) frequency"
  from build_huffman_tree_queue[OF ne] b have m: "merge_loop (heapify ?init) = Inr [t]" by auto
  have "\<forall>n \<in># mset (heapify ?init). strict_tree n" by auto
  from merge_loop_strict[OF this m] show ?thesis by simp
qed

text \<open>
  Claim C8. Every tree returned by \<^verbatim>\<open>build_huffman_tree\<close> is a strict binary tree:
  internal nodes carry no symbol, have exactly two children and the sum of their
  frequencies; leaves carry a symbol.
\<close>

theorem builder_strict_tree:
  "build_huffman_tree frequency = Inr t \<Longrightarrow> strict_tree t"
  by (rule build_huffman_tree_strict)

theorem builder_strict_tree_witness:
  "build_huffman_tree [(''A'', 5), (''B'', 3), (''C'', 2)] =
     Inr (HuffmanNode None 10 (Some (HuffmanNode (Some ''A'') 5 None None))
       (Some (HuffmanNode None 5 (Some (HuffmanNode (Some ''C'') 2 None None))
               (Some (HuffmanNode (Some ''B'') 3 None None))))) \<and>
   strict_tree (HuffmanNode None 10 (Some (HuffmanNode (Some ''A'') 5 None None))
       (Some (HuffmanNode None 5 (Some (HuffmanNode (Some ''C'') 2 None None))
               (Some (HuffmanNode (Some ''B'') 3 None None)))))"
proof -
  have b: "build_huffman_tree [(''A'', 5), (''B'', 3), (''C'', 2)] =
     Inr (HuffmanNode None 10 (Some (HuffmanNode (Some ''A'') 5 None None))
       (Some (HuffmanNode None 5 (Some (HuffmanNode (Some ''C'') 2 None None))
               (Some (HuffmanNode (Some ''B'') 3 None None)))))"
    by code_simp
  show ?thesis using b builder_strict_tree[OF b] by simp
qed

section \<open>The padding header\<close>

lemma header_roundtrip:
  assumes "1 \<le> p" "p \<le> 8"
  shows "length (format_08b p) = 8 \<and> int_base2 (format_08b p) = Inr p"
proof -
  from assms have "p = 1 \<or> p = 2 \<or> p = 3 \<or> p = 4 \<or> p = 5 \<or> p = 6 \<or> p = 7 \<or> p = 8" by arith
  moreover have "length (format_08b 1) = 8 \<and> int_base2 (format_08b 1) = Inr 1" by code_simp
  moreover have "length (format_08b 2) = 8 \<and> int_base2 (format_08b 2) = Inr 2" by code_simp
  moreover have "length (format_08b 3) = 8 \<and> int_base2 (format_08b 3) = Inr 3" by code_simp
  moreover have "length (format_08b 4) = 8 \<and> int_base2 (format_08b 4) = Inr 4" by code_simp
  moreover have "length (format_08b 5) = 8 \<and> int_base2 (format_08b 5) = Inr 5" by code_simp
  moreover have "length (format_08b 6) = 8 \<and> int_base2 (format_08b 6) = Inr 6" by code_simp
  moreover have "length (format_08b 7) = 8 \<and> int_base2 (format_08b 7) = Inr 7" by code_simp
  moreover have "length (format_08b 8) = 8 \<and> int_base2 (format_08b 8) = Inr 8" by code_simp
  ultimately show ?thesis by blast
qed

lemma encode_data_shape:
  assumes "join_codes data codes = Inr bits"
  shows "encode_data data codes =
           Inr (format_08b (8 - length bits mod 8) @ bits @ replicate (8 - length bits mod 8) CHR ''0'')"
  using assms by (simp add: encode_data_def Let_def)

lemma encode_data_Inr:
  assumes "encode_data data codes = Inr s"
  shows "\<exists>bits. join_codes data codes = Inr bits"
  using assms by (cases "join_codes data codes") (auto simp: encode_data_def)

text \<open>
  Claim C6 says that the header holds \<open>(8 - totalBits mod 8) mod 8\<close>, a value from 0
  to 7 that is 0 on byte-aligned input. The code computes \<^verbatim>\<open>8 - len(encoded_data) % 8\<close>
  without the outer \<^verbatim>\<open>mod\<close>, and \<^verbatim>\<open>decode_data\<close> relies on it: a header of 0 would
  make its slice empty. On the eight code bits of \<^verbatim>\<open>"abababab"\<close> the header is 8.
\<close>

theorem padding_header_counterexample:
  "build_huffman_tree (build_frequency_dict ''abababab'') = Inr (HuffmanNode None 8 (Some (HuffmanNode (Some ''b'') 4 None None))
        (Some (HuffmanNode (Some ''a'') 4 None None))) \<and>
   join_codes ''abababab'' (build_codes (HuffmanNode None 8 (Some (HuffmanNode (Some ''b'') 4 None None))
        (Some (HuffmanNode (Some ''a'') 4 None None)))) = Inr ''10101010'' \<and>
   encode_data ''abababab'' (build_codes (HuffmanNode None 8 (Some (HuffmanNode (Some ''b'') 4 None None))
        (Some (HuffmanNode (Some ''a'') 4 None None)))) = Inr ''000010001010101000000000'' \<and>
   int_base2 (take 8 ''000010001010101000000000'') = Inr 8 \<and>
   int_base2 (take 8 ''000010001010101000000000'') \<noteq> Inr ((8 - length ''10101010'' mod 8) mod 8)"
  by code_simp

text \<open>
  Claim C6, as the code has it. For every input that \<^verbatim>\<open>encode_data\<close> accepts, the
  header holds \<open>8 - totalBits mod 8\<close>: a value from 1 to 8, which is 8 when the code
  bits are already byte-aligned.
\<close>

theorem padding_header_value:
  assumes "encode_data data codes = Inr s"
  shows "\<exists>bits. join_codes data codes = Inr bits \<and>
           int_base2 (take 8 s) = Inr (8 - length bits mod 8) \<and>
           1 \<le> 8 - length bits mod 8 \<and> 8 - length bits mod 8 \<le> 8 \<and>
           (length bits mod 8 = 0 \<longrightarrow> int_base2 (take 8 s) = Inr 8)"
proof -
  from encode_data_Inr[OF assms] obtain bits where b: "join_codes data codes = Inr bits" by blast
  let ?p = "8 - length bits mod 8"
  have p: "1 \<le> ?p" "?p \<le> 8" by arith+
  from header_roundtrip[OF p] have h: "length (format_08b ?p) = 8" "int_base2 (format_08b ?p) = Inr ?p"
    by auto
  from encode_data_shape[OF b] assms
  have s: "s = format_08b ?p @ bits @ replicate ?p CHR ''0''" by simp
  have "take 8 s = format_08b ?p" unfolding s using h(1) by simp
  with h(2) b p show ?thesis by auto
qed

theorem padding_header_value_witness:
  "encode_data ''abababab'' (build_codes (HuffmanNode None 8 (Some (HuffmanNode (Some ''b'') 4 None None))
        (Some (HuffmanNode (Some ''a'') 4 None None)))) = Inr ''000010001010101000000000'' \<and>
   (\<exists>bits. join_codes ''abababab'' (build_codes (HuffmanNode None 8 (Some (HuffmanNode (Some ''b'') 4 None None))
        (Some (HuffmanNode (Some ''a'') 4 None None)))) = Inr bits \<and>
      int_base2 (take 8 ''000010001010101000000000'') = Inr (8 - length bits mod 8))"
proof -
  have e: "encode_data ''abababab'' (build_codes (HuffmanNode None 8 (Some (HuffmanNode (Some ''b'') 4 None None))
        (Some (HuffmanNode (Some ''a'') 4 None None)))) = Inr ''000010001010101000000000''"
    by code_simp
  from padding_header_value[OF e] e show ?thesis by blast
qed

section \<open>A table with a single symbol\<close>

lemma frequency_loop_single:
  "frequency_loop (replicate k c) [([c], n)] = [([c], n + k)]"
  by (induction k arbitrary: n) auto

lemma build_frequency_dict_single:
  "build_frequency_dict (replicate (Suc k) c) = [([c], Suc k)]"
  using frequency_loop_single[of k c 1] by (simp add: build_frequency_dict_def)

lemma build_huffman_tree_single:
  "build_huffman_tree [(s, f)] = Inr (HuffmanNode (Some s) f None None)"
  by (simp add: build_huffman_tree_def heapify_def merge_loop_stop)

lemma build_codes_single:
  "s \<noteq> [] \<Longrightarrow> build_codes (HuffmanNode (Some s) f None None) s = Some []"
  by (simp add: build_codes_def truthy_def)

lemma join_codes_single:
  "codes [c] = Some [] \<Longrightarrow> join_codes (replicate k c) codes = Inr []"
  by (induction k) auto

text \<open>
  Claim C4 asks that an input made of one symbol repeated \<open>k \<ge> 1\<close> times gets a code of
  length at least 1 and survives the round trip. The code does neither: the only node is
  the root, \<^verbatim>\<open>build_codes\<close> gives it the empty code, the encoder writes the header 8
  and eight padding bits, and the decoder returns the empty string.
\<close>

theorem single_symbol_round_trip_fails:
  assumes "1 \<le> k" and "data = replicate k c"
  shows "build_huffman_tree (build_frequency_dict data) = Inr (HuffmanNode (Some [c]) k None None) \<and>
         build_codes (HuffmanNode (Some [c]) k None None) [c] = Some [] \<and>
         encode_data data (build_codes (HuffmanNode (Some [c]) k None None)) = Inr ''0000100000000000'' \<and>
         decode_data ''0000100000000000'' (HuffmanNode (Some [c]) k None None) = Inr []"
proof -
  from assms obtain j where k: "k = Suc j" by (cases k) auto
  let ?t = "HuffmanNode (Some [c]) k None None"
  have "build_frequency_dict data = [([c], k)]"
    using build_frequency_dict_single[of j c] assms(2) k by simp
  then have t: "build_huffman_tree (build_frequency_dict data) = Inr ?t"
    by (simp add: build_huffman_tree_single)
  have c: "build_codes ?t [c] = Some []" by (simp add: build_codes_single)
  have f: "format_08b 8 = ''00001000''" by code_simp
  have r: "replicate 8 CHR ''0'' = ''00000000''" by code_simp
  have e: "encode_data data (build_codes ?t) = Inr ''0000100000000000''"
    using join_codes_single[of "build_codes ?t" c k] c assms(2) f r
    by (simp add: encode_data_def)
  have d: "decode_data ''0000100000000000'' ?t = Inr []"
    by (simp add: decode_data_def int_base2_def slice_8_to_minus_def)
  from t c e d show ?thesis by simp
qed

theorem single_symbol_round_trip_fails_witness:
  "build_huffman_tree (build_frequency_dict ''AAAA'') = Inr (HuffmanNode (Some ''A'') 4 None None) \<and>
   build_codes (HuffmanNode (Some ''A'') 4 None None) ''A'' = Some [] \<and>
   encode_data ''AAAA'' (build_codes (HuffmanNode (Some ''A'') 4 None None)) = Inr ''0000100000000000'' \<and>
   decode_data ''0000100000000000'' (HuffmanNode (Some ''A'') 4 None None) = Inr []"
proof -
  have "''AAAA'' = replicate 4 CHR ''A''" by (simp add: numeral_eq_Suc)
  from single_symbol_round_trip_fails[OF _ this] show ?thesis by simp
qed

text \<open>
  Claim C3 asks that every code of the table is non-empty and that no code is a prefix
  of another. On a table with a single entry the tree is a single leaf, and its code is
  the empty string.
\<close>

theorem single_entry_empty_code:
  "s \<noteq> [] \<Longrightarrow>
     build_huffman_tree [(s, f)] = Inr (HuffmanNode (Some s) f None None) \<and>
     build_codes (HuffmanNode (Some s) f None None) s = Some []"
  by (simp add: build_huffman_tree_single build_codes_single)

theorem single_entry_empty_code_witness:
  "build_huffman_tree [(''A'', 4)] = Inr (HuffmanNode (Some ''A'') 4 None None) \<and>
   build_codes (HuffmanNode (Some ''A'') 4 None None) ''A'' = Some []"
  using single_entry_empty_code[of "''A''" 4] by simp

section \<open>Leaves of a tree\<close>

lemma leaf_table_merged: "leaf_table (merged_node l r) = leaf_table l + leaf_table r"
  by (simp add: merged_node_def)

lemma merge_loop_forest_table:
  "merge_loop pq = Inr q \<Longrightarrow> forest_table q = forest_table pq"
proof (induction pq rule: merge_loop_induct)
  case (stop pq)
  then show ?case by (simp add: merge_loop_stop)
next
  case (step pq l q1 r q2)
  from heappop_Inr[OF step.hyps(2)] heappop_Inr[OF step.hyps(3)]
  have m: "mset pq = add_mset l (add_mset r (mset q2))" by simp
  have "merge_loop (heappush q2 (merged_node l r)) = Inr q"
    using step.prems step.hyps by (simp add: merge_loop_step)
  then have "forest_table q = forest_table (heappush q2 (merged_node l r))" by (rule step.IH)
  also have "\<dots> = forest_table pq"
    by (simp add: forest_table_def mset_heappush m leaf_table_merged)
  finally show ?case .
qed

lemma forest_table_init:
  "forest_table (map (\<lambda>(c, f). HuffmanNode (Some c) f None None) frequency) =
     mset (map (\<lambda>(c, f). (Some c, f)) frequency)"
  by (induction frequency) (auto simp: forest_table_def)

lemma builder_leaf_table:
  assumes "build_huffman_tree frequency = Inr t"
  shows "leaf_table t = mset (map (\<lambda>(c, f). (Some c, f)) frequency)"
proof -
  from assms have ne: "frequency \<noteq> []" using build_huffman_tree_empty by auto
  let ?init = "map (\<lambda>(c, f). HuffmanNode (Some c) f None None) frequency"
  from build_huffman_tree_queue[OF ne] assms have m: "merge_loop (heapify ?init) = Inr [t]" by auto
  from merge_loop_forest_table[OF m] have "leaf_table t = forest_table (heapify ?init)"
    by (simp add: forest_table_def)
  also have "\<dots> = forest_table ?init" by (simp add: forest_table_def)
  finally show ?thesis by (simp add: forest_table_init)
qed

lemma strict_leaf_or_inner:
  assumes "strict_tree n"
  obtains (leaf) c f where "n = HuffmanNode (Some c) f None None"
    | (inner) f l r where "n = HuffmanNode None f (Some l) (Some r)" "strict_tree l" "strict_tree r"
  using assms by (cases n rule: strict_tree.cases) auto

lemma builder_root_inner:
  assumes "build_huffman_tree frequency = Inr t" and "2 \<le> length frequency"
  shows "\<exists>f l r. t = HuffmanNode None f (Some l) (Some r)"
proof -
  have s: "strict_tree t" using assms(1) by (rule build_huffman_tree_strict)
  have "size (leaf_table t) = length frequency" using builder_leaf_table[OF assms(1)] by simp
  with assms(2) have "size (leaf_table t) \<noteq> 1" by simp
  with s show ?thesis by (cases t rule: strict_leaf_or_inner) auto
qed

section \<open>The code table\<close>

lemma store_Nil [simp]: "store [] codes = codes"
  by (simp add: store_def)

lemma store_Cons [simp]: "store ((a, b) # kvs) codes = store kvs (codes(a \<mapsto> b))"
  by (simp add: store_def)

lemma store_append: "store (xs @ ys) codes = store ys (store xs codes)"
  by (simp add: store_def)

lemma build_codes_helper_store:
  "build_codes_helper n current_code codes = store (codes_list n current_code) codes"
proof (induction n current_code codes rule: build_codes_helper.induct)
  case (1 current_code codes)
  show ?case by simp
next
  case (2 c f l r current_code codes)
  show ?case using 2 by (simp add: store_append Let_def)
qed

lemma store_Some:
  "store kvs codes k = Some x \<Longrightarrow> (k, x) \<in> set kvs \<or> codes k = Some x"
proof (induction kvs arbitrary: codes)
  case Nil
  then show ?case by simp
next
  case (Cons kv kvs)
  obtain a b where kv: "kv = (a, b)" by (cases kv)
  with Cons.prems have "store kvs (codes(a \<mapsto> b)) k = Some x" by simp
  from Cons.IH[OF this] show ?case using kv by (auto split: if_splits)
qed

lemma store_dom: "dom (store kvs codes) = fst ` set kvs \<union> dom codes"
proof (induction kvs arbitrary: codes)
  case Nil
  show ?case by simp
next
  case (Cons kv kvs)
  obtain a b where kv: "kv = (a, b)" by (cases kv)
  show ?case unfolding kv store_Cons Cons.IH by simp
qed

lemma build_codes_entry:
  "build_codes t k = Some x \<Longrightarrow> (k, x) \<in> set (codes_list (Some t) [])"
  using store_Some[of "codes_list (Some t) []" Map.empty k x]
  by (simp add: build_codes_def build_codes_helper_store)

lemma build_codes_dom: "dom (build_codes t) = fst ` set (codes_list (Some t) [])"
  by (simp add: build_codes_def build_codes_helper_store store_dom)

lemma codes_list_prefix:
  "(k, x) \<in> set (codes_list n current_code) \<Longrightarrow> prefix current_code x"
proof (induction n current_code rule: codes_list.induct)
  case (1 current_code)
  then show ?case by simp
next
  case (2 c f l r current_code)
  then show ?case by (auto split: if_splits dest: append_prefixD)
qed

lemma codes_list_keys:
  "strict_tree n \<Longrightarrow>
     fst ` set (codes_list (Some n) code) = {k. k \<noteq> [] \<and> (\<exists>f. (Some k, f) \<in># leaf_table n)}"
proof (induction n arbitrary: code rule: strict_tree.induct)
  case (1 c f)
  then show ?case by (auto simp: truthy_def)
next
  case (2 c f l r)
  then show ?case by (auto simp: truthy_def image_Un)
qed simp_all

lemma builder_codes_dom:
  assumes "build_huffman_tree frequency = Inr t"
  shows "dom (build_codes t) = {k \<in> fst ` set frequency. k \<noteq> []}"
proof -
  have s: "strict_tree t" using assms by (rule build_huffman_tree_strict)
  show ?thesis
    unfolding build_codes_dom codes_list_keys[OF s] builder_leaf_table[OF assms]
    by force
qed

lemma codes_list_incomparable:
  "strict_tree n \<Longrightarrow> (a, x) \<in> set (codes_list (Some n) code) \<Longrightarrow>
     (b, y) \<in> set (codes_list (Some n) code) \<Longrightarrow> prefix x y \<Longrightarrow> (a, x) = (b, y)"
proof (induction n arbitrary: code rule: strict_tree.induct)
  case (1 c f)
  then show ?case by (auto split: if_splits)
next
  case (2 c f l r)
  from "2.prems"(1) have c: "c = None" and sl: "strict_tree l" and sr: "strict_tree r" by auto
  have split: "set (codes_list (Some (HuffmanNode c f (Some l) (Some r))) code) =
      set (codes_list (Some l) (code @ ''0'')) \<union> set (codes_list (Some r) (code @ ''1''))"
    using c by (simp add: truthy_def)
  have clash: False
    if "prefix (code @ [p]) x" "prefix (code @ [q]) y" "p \<noteq> q" for p q :: char
  proof -
    from that(1) \<open>prefix x y\<close> have "prefix (code @ [p]) y" by (rule prefix_order.trans)
    with that(2) have "prefix (code @ [p]) (code @ [q]) \<or> prefix (code @ [q]) (code @ [p])"
      using prefix_same_cases by blast
    with that(3) show False by auto
  qed
  from "2.prems"(2,3) split
  consider (LL) "(a, x) \<in> set (codes_list (Some l) (code @ ''0''))"
                "(b, y) \<in> set (codes_list (Some l) (code @ ''0''))"
    | (RR) "(a, x) \<in> set (codes_list (Some r) (code @ ''1''))"
           "(b, y) \<in> set (codes_list (Some r) (code @ ''1''))"
    | (LR) "(a, x) \<in> set (codes_list (Some l) (code @ ''0''))"
           "(b, y) \<in> set (codes_list (Some r) (code @ ''1''))"
    | (RL) "(a, x) \<in> set (codes_list (Some r) (code @ ''1''))"
           "(b, y) \<in> set (codes_list (Some l) (code @ ''0''))"
    by blast
  then show ?case
  proof cases
    case LL
    then show ?thesis using "2.IH"(1)[OF sl _ _ "2.prems"(4)] by blast
  next
    case RR
    then show ?thesis using "2.IH"(2)[OF sr _ _ "2.prems"(4)] by blast
  next
    case LR
    then show ?thesis using clash[of "CHR ''0''" "CHR ''1''"] codes_list_prefix by fastforce
  next
    case RL
    then show ?thesis using clash[of "CHR ''1''" "CHR ''0''"] codes_list_prefix by fastforce
  qed
qed simp_all

lemma codes_prefix_free:
  assumes "build_huffman_tree frequency = Inr t"
    and "build_codes t a = Some x" and "build_codes t b = Some y" and "a \<noteq> b"
  shows "\<not> prefix x y"
proof
  assume "prefix x y"
  have s: "strict_tree t" using assms(1) by (rule build_huffman_tree_strict)
  from codes_list_incomparable[OF s build_codes_entry[OF assms(2)] build_codes_entry[OF assms(3)] \<open>prefix x y\<close>]
  show False using assms(4) by simp
qed

lemma codes_nonempty:
  assumes "build_huffman_tree frequency = Inr t" and "2 \<le> length frequency"
    and "build_codes t a = Some x"
  shows "x \<noteq> []"
proof -
  from builder_root_inner[OF assms(1,2)] obtain f l r where inner: "t = HuffmanNode None f (Some l) (Some r)"
    by blast
  from build_codes_entry[OF assms(3)] inner
  have "(a, x) \<in> set (codes_list (Some l) ''0'') \<or> (a, x) \<in> set (codes_list (Some r) ''1'')"
    by (auto simp: truthy_def)
  then have "prefix ''0'' x \<or> prefix ''1'' x" using codes_list_prefix by blast
  then show ?thesis by auto
qed

section \<open>Decoding what was encoded\<close>

lemma decode_loop_Cons:
  "decode_loop root cur (b # bits) acc =
     (case (if b = CHR ''0'' then left cur else right cur) of
        None \<Rightarrow> Inl AttributeError
      | Some m \<Rightarrow> step_into root m bits acc)"
  by (simp add: step_into_def split: option.splits)

lemma walk_code:
  "strict_tree a \<Longrightarrow> (k, x) \<in> set (codes_list (Some a) code) \<Longrightarrow>
     \<exists>x'. x = code @ x' \<and>
       (\<forall>rest acc. step_into root a (x' @ rest) acc = decode_loop root root rest (acc @ [k]))"
proof (induction a arbitrary: code rule: strict_tree.induct)
  case (1 c f)
  then have "truthy c" "k = the c" "x = code" by (auto split: if_splits)
  then show ?case by (simp add: step_into_def)
next
  case (2 c f l r)
  let ?a = "HuffmanNode c f (Some l) (Some r)"
  from "2.prems"(1) have c: "c = None" and sl: "strict_tree l" and sr: "strict_tree r" by auto
  have nt: "\<not> truthy (char ?a)" using c by (simp add: truthy_def)
  from "2.prems"(2) c
  consider (L) "(k, x) \<in> set (codes_list (Some l) (code @ ''0''))"
    | (R) "(k, x) \<in> set (codes_list (Some r) (code @ ''1''))"
    by (auto simp: truthy_def)
  then show ?case
  proof cases
    case L
    from "2.IH"(1)[OF sl L] obtain x' where
      x: "x = (code @ ''0'') @ x'" and
      w: "\<And>rest acc. step_into root l (x' @ rest) acc = decode_loop root root rest (acc @ [k])"
      by blast
    have "step_into root ?a ((CHR ''0'' # x') @ rest) acc = decode_loop root root rest (acc @ [k])"
      for rest acc
      using nt w[of rest acc]
      by (simp add: step_into_def[of root ?a] decode_loop_Cons del: decode_loop.simps(2))
    with x show ?thesis by (intro exI[of _ "CHR ''0'' # x'"]) simp
  next
    case R
    from "2.IH"(2)[OF sr R] obtain x' where
      x: "x = (code @ ''1'') @ x'" and
      w: "\<And>rest acc. step_into root r (x' @ rest) acc = decode_loop root root rest (acc @ [k])"
      by blast
    have "step_into root ?a ((CHR ''1'' # x') @ rest) acc = decode_loop root root rest (acc @ [k])"
      for rest acc
      using nt w[of rest acc]
      by (simp add: step_into_def[of root ?a] decode_loop_Cons del: decode_loop.simps(2))
    with x show ?thesis by (intro exI[of _ "CHR ''1'' # x'"]) simp
  qed
qed simp_all

lemma decode_codes:
  assumes s: "strict_tree t" and inner: "t = HuffmanNode None f (Some l) (Some r)"
    and cover: "\<forall>c \<in> set data. [c] \<in> dom (build_codes t)"
  shows "\<exists>bits. join_codes data (build_codes t) = Inr bits \<and>
           (\<forall>rest acc. decode_loop t t (bits @ rest) acc =
                          decode_loop t t rest (acc @ map (\<lambda>c. [c]) data))"
  using cover
proof (induction data)
  case Nil
  show ?case by simp
next
  case (Cons c cs)
  from Cons.prems obtain x where x: "build_codes t [c] = Some x" by auto
  from Cons.IH Cons.prems obtain bits where
    j: "join_codes cs (build_codes t) = Inr bits" and
    d: "\<And>rest acc. decode_loop t t (bits @ rest) acc =
                          decode_loop t t rest (acc @ map (\<lambda>c. [c]) cs)"
    by auto
  from walk_code[OF s build_codes_entry[OF x], of t] have
    w: "\<And>rest acc. step_into t t (x @ rest) acc = decode_loop t t rest (acc @ [[c]])"
    by auto
  have nt: "\<not> truthy (char t)" using inner by (simp add: truthy_def)
  have "decode_loop t t ((x @ bits) @ rest) acc =
          decode_loop t t rest (acc @ map (\<lambda>c. [c]) (c # cs))" for rest acc
    using w[of "bits @ rest" acc] d[of rest "acc @ [[c]]"] nt by (simp add: step_into_def)
  moreover have "join_codes (c # cs) (build_codes t) = Inr (x @ bits)" using x j by simp
  ultimately show ?case by blast
qed

lemma slice_payload:
  assumes "length h = 8" and "0 < p"
  shows "slice_8_to_minus (h @ bits @ replicate p z) p = bits"
  using assms by (simp add: slice_8_to_minus_def)

lemma decode_encoded:
  assumes j: "join_codes data codes = Inr bits"
  shows "\<exists>s. encode_data data codes = Inr s \<and>
           decode_data s root =
             (case decode_loop root root bits [] of
                Inl e \<Rightarrow> Inl e
              | Inr (decoded_data, current_node) \<Rightarrow> Inr (concat decoded_data))"
proof -
  let ?p = "8 - length bits mod 8"
  let ?s = "format_08b ?p @ bits @ replicate ?p CHR ''0''"
  have p: "1 \<le> ?p" "?p \<le> 8" by arith+
  from header_roundtrip[OF p] have h: "length (format_08b ?p) = 8" "int_base2 (format_08b ?p) = Inr ?p"
    by auto
  have e: "encode_data data codes = Inr ?s" using j by (rule encode_data_shape)
  have t: "take 8 ?s = format_08b ?p" using h(1) by simp
  have sl: "slice_8_to_minus ?s ?p = bits" using h(1) p by (intro slice_payload) auto
  have "decode_data ?s root =
             (case decode_loop root root bits [] of
                Inl e \<Rightarrow> Inl e
              | Inr (decoded_data, current_node) \<Rightarrow> Inr (concat decoded_data))"
    by (simp only: decode_data_def t h(2) sl sum.case)
  with e show ?thesis by blast
qed

lemma concat_singletons: "concat (map (\<lambda>c. [c]) data) = data"
  by (induction data) auto

text \<open>
  Claim C1. For every text with at least two distinct characters, the tree built from
  the frequency table of the text exists, \<^verbatim>\<open>encode_data\<close> with the code table of that
  tree succeeds, and \<^verbatim>\<open>decode_data\<close> on the result with the same tree returns the text.
\<close>

theorem round_trip:
  assumes "2 \<le> card (set data)"
  shows "\<exists>t s. build_huffman_tree (build_frequency_dict data) = Inr t \<and>
               encode_data data (build_codes t) = Inr s \<and>
               decode_data s t = Inr data"
proof -
  let ?fr = "build_frequency_dict data"
  from build_frequency_dict_props[of data] have
    keys: "fst ` set ?fr = (\<lambda>c. [c]) ` set data" and dist: "distinct (map fst ?fr)" by auto
  have "length ?fr = card (fst ` set ?fr)" using distinct_card[OF dist] by simp
  also have "\<dots> = card (set data)" unfolding keys by (rule card_image) (simp add: inj_on_def)
  finally have len: "2 \<le> length ?fr" using assms by simp
  then have "?fr \<noteq> []" by auto
  with build_huffman_tree_queue[of ?fr] obtain t where t: "build_huffman_tree ?fr = Inr t" by auto
  have s: "strict_tree t" using t by (rule build_huffman_tree_strict)
  from builder_root_inner[OF t len] obtain f l r where inner: "t = HuffmanNode None f (Some l) (Some r)"
    by blast
  have cover: "\<forall>c \<in> set data. [c] \<in> dom (build_codes t)"
    unfolding builder_codes_dom[OF t] keys by auto
  from decode_codes[OF s inner cover] obtain bits where
    j: "join_codes data (build_codes t) = Inr bits" and
    d: "\<And>rest acc. decode_loop t t (bits @ rest) acc =
                          decode_loop t t rest (acc @ map (\<lambda>c. [c]) data)"
    by blast
  from d[of "[]" "[]"] have dl: "decode_loop t t bits [] = Inr (map (\<lambda>c. [c]) data, t)" by simp
  from decode_encoded[OF j, of t] obtain s where
    "encode_data data (build_codes t) = Inr s" "decode_data s t = Inr data"
    unfolding dl by (auto simp: concat_singletons)
  with t show ?thesis by blast
qed

theorem round_trip_witness:
  "2 \<le> card (set ''AAAAABBBCC'') \<and>
   (\<exists>t s. build_huffman_tree (build_frequency_dict ''AAAAABBBCC'') = Inr t \<and>
          encode_data ''AAAAABBBCC'' (build_codes t) = Inr s \<and>
          decode_data s t = Inr ''AAAAABBBCC'')"
proof -
  have h: "2 \<le> card (set ''AAAAABBBCC'')" by simp
  from round_trip[OF h] h show ?thesis by blast
qed

section \<open>Streams that end in the middle of a code\<close>

lemma decode_loop_total:
  assumes root: "strict_tree root" "\<forall>(c, f) \<in># leaf_table root. truthy c"
    "root = HuffmanNode None f0 (Some l0) (Some r0)"
  shows "strict_tree cur \<Longrightarrow> \<forall>(c, f) \<in># leaf_table cur. truthy c \<Longrightarrow> left cur \<noteq> None \<Longrightarrow>
           \<exists>out cur'. decode_loop root cur bits acc = Inr (out, cur')"
proof (induction bits arbitrary: cur acc)
  case Nil
  show ?case by simp
next
  case (Cons b bits)
  from Cons.prems(1,3) obtain f l r where
    cur: "cur = HuffmanNode None f (Some l) (Some r)" and sl: "strict_tree l" and sr: "strict_tree r"
    by (cases cur rule: strict_leaf_or_inner) auto
  define m where "m = (if b = CHR ''0'' then l else r)"
  have sm: "strict_tree m" and tm: "\<forall>(c, f) \<in># leaf_table m. truthy c"
    using sl sr Cons.prems(2) cur by (auto simp: m_def)
  have step: "decode_loop root cur (b # bits) acc = step_into root m bits acc"
    unfolding decode_loop_Cons cur m_def by simp
  from sm show ?case
  proof (cases m rule: strict_leaf_or_inner)
    case (leaf c f')
    with tm have "truthy (char m)" by simp
    then have "step_into root m bits acc = decode_loop root root bits (acc @ [the (char m)])"
      by (simp add: step_into_def)
    moreover have "\<exists>out cur'. decode_loop root root bits (acc @ [the (char m)]) = Inr (out, cur')"
      using root by (intro Cons.IH) auto
    ultimately show ?thesis using step by simp
  next
    case (inner f' l' r')
    then have "step_into root m bits acc = decode_loop root m bits acc"
      by (simp add: step_into_def truthy_def)
    moreover have "\<exists>out cur'. decode_loop root m bits acc = Inr (out, cur')"
      using sm tm inner by (intro Cons.IH) auto
    ultimately show ?thesis using step by simp
  qed
qed

text \<open>
  Claim C5 says that a stream whose payload does not end at a leaf is reported as
  corrupt. \<^verbatim>\<open>decode_data\<close> has no such check: after the loop it joins what was decoded.
  The stream of \<^verbatim>\<open>"CCBBBAAAAA"\<close> without its last byte has the payload \<^verbatim>\<open>1010111\<close>; the
  loop ends at an internal node and \<^verbatim>\<open>decode_data\<close> returns \<^verbatim>\<open>"CCB"\<close>.
\<close>

theorem truncated_stream_counterexample:
  "build_huffman_tree (build_frequency_dict ''CCBBBAAAAA'') = Inr (HuffmanNode None 10 (Some (HuffmanNode (Some ''A'') 5 None None))
        (Some (HuffmanNode None 5 (Some (HuffmanNode (Some ''C'') 2 None None))
                (Some (HuffmanNode (Some ''B'') 3 None None))))) \<and>
   encode_data ''CCBBBAAAAA'' (build_codes (HuffmanNode None 10 (Some (HuffmanNode (Some ''A'') 5 None None))
        (Some (HuffmanNode None 5 (Some (HuffmanNode (Some ''C'') 2 None None))
                (Some (HuffmanNode (Some ''B'') 3 None None)))))) = Inr ''000000011010111111000000'' \<and>
   decode_loop (HuffmanNode None 10 (Some (HuffmanNode (Some ''A'') 5 None None))
        (Some (HuffmanNode None 5 (Some (HuffmanNode (Some ''C'') 2 None None))
                (Some (HuffmanNode (Some ''B'') 3 None None))))) (HuffmanNode None 10 (Some (HuffmanNode (Some ''A'') 5 None None))
        (Some (HuffmanNode None 5 (Some (HuffmanNode (Some ''C'') 2 None None))
                (Some (HuffmanNode (Some ''B'') 3 None None))))) (slice_8_to_minus ''0000000110101111'' 1) [] =
     Inr ([''C'', ''C'', ''B''], (HuffmanNode None 5 (Some (HuffmanNode (Some ''C'') 2 None None))
          (Some (HuffmanNode (Some ''B'') 3 None None)))) \<and>
   (HuffmanNode None 5 (Some (HuffmanNode (Some ''C'') 2 None None))
          (Some (HuffmanNode (Some ''B'') 3 None None))) \<noteq> (HuffmanNode None 10 (Some (HuffmanNode (Some ''A'') 5 None None))
        (Some (HuffmanNode None 5 (Some (HuffmanNode (Some ''C'') 2 None None))
                (Some (HuffmanNode (Some ''B'') 3 None None))))) \<and>
   decode_data ''0000000110101111'' (HuffmanNode None 10 (Some (HuffmanNode (Some ''A'') 5 None None))
        (Some (HuffmanNode None 5 (Some (HuffmanNode (Some ''C'') 2 None None))
                (Some (HuffmanNode (Some ''B'') 3 None None))))) = Inr ''CCB''"
  by code_simp

text \<open>
  With a tree built from a table with at least two entries and no empty key,
  \<^verbatim>\<open>decode_data\<close> raises no error on any stream whose first eight bits are a number.
\<close>

lemma decode_data_no_error:
  assumes "build_huffman_tree frequency = Inr t" and "2 \<le> length frequency"
    and "\<forall>k \<in> fst ` set frequency. k \<noteq> []"
    and "int_base2 (take 8 encoded_data) = Inr padding"
  shows "\<exists>decoded_data current_node.
           decode_loop t t (slice_8_to_minus encoded_data padding) [] = Inr (decoded_data, current_node) \<and>
           decode_data encoded_data t = Inr (concat decoded_data)"
proof -
  have s: "strict_tree t" using assms(1) by (rule build_huffman_tree_strict)
  from builder_root_inner[OF assms(1,2)] obtain f l r where inner: "t = HuffmanNode None f (Some l) (Some r)"
    by blast
  have tr: "\<forall>(c, f) \<in># leaf_table t. truthy c"
    unfolding builder_leaf_table[OF assms(1)] using assms(3) by (auto simp: truthy_def)
  from decode_loop_total[OF s tr inner s tr, of "slice_8_to_minus encoded_data padding" "[]"] inner
  obtain out cur' where "decode_loop t t (slice_8_to_minus encoded_data padding) [] = Inr (out, cur')"
    by auto
  then show ?thesis using assms(4) by (auto simp: decode_data_def)
qed

lemma decode_symbols:
  assumes s: "strict_tree t" and inner: "t = HuffmanNode None f (Some l) (Some r)"
  shows "\<forall>k \<in> set ks. build_codes t k \<noteq> None \<Longrightarrow>
           decode_loop t t (concat (map (\<lambda>k. the (build_codes t k)) ks) @ rest) acc =
           decode_loop t t rest (acc @ ks)"
proof (induction ks arbitrary: acc)
  case Nil
  show ?case by simp
next
  case (Cons k ks)
  from Cons.prems obtain x where x: "build_codes t k = Some x" by auto
  from walk_code[OF s build_codes_entry[OF x], of t] have
    w: "\<And>rest acc. step_into t t (x @ rest) acc = decode_loop t t rest (acc @ [k])"
    by auto
  have nt: "\<not> truthy (char t)" using inner by (simp add: truthy_def)
  let ?tail = "concat (map (\<lambda>k. the (build_codes t k)) ks) @ rest"
  have "decode_loop t t (x @ ?tail) acc = decode_loop t t ?tail (acc @ [k])"
    using w[of ?tail acc] nt by (simp add: step_into_def)
  also have "\<dots> = decode_loop t t rest ((acc @ [k]) @ ks)"
    using Cons.prems by (intro Cons.IH) simp
  finally show ?case using x by simp
qed

lemma walk_partial:
  "strict_tree a \<Longrightarrow> (k, x) \<in> set (codes_list (Some a) code) \<Longrightarrow> x = code @ y @ z \<Longrightarrow> z \<noteq> [] \<Longrightarrow>
     \<exists>cur. step_into root a y acc = Inr (acc, cur) \<and> size cur \<le> size a \<and>
           (y \<noteq> [] \<longrightarrow> size cur < size a)"
proof (induction a arbitrary: code y rule: strict_tree.induct)
  case (1 c f)
  then show ?case by (auto split: if_splits)
next
  case (2 c f l r)
  let ?a = "HuffmanNode c f (Some l) (Some r)"
  from "2.prems"(1) have c: "c = None" and sl: "strict_tree l" and sr: "strict_tree r" by auto
  have nt: "\<not> truthy (char ?a)" using c by (simp add: truthy_def)
  show ?case
  proof (cases y)
    case Nil
    then show ?thesis using nt by (simp add: step_into_def)
  next
    case (Cons b y')
    from "2.prems"(2) c
    consider (L) "(k, x) \<in> set (codes_list (Some l) (code @ ''0''))"
      | (R) "(k, x) \<in> set (codes_list (Some r) (code @ ''1''))"
      by (auto simp: truthy_def)
    then show ?thesis
    proof cases
      case L
      then have "prefix (code @ ''0'') x" by (rule codes_list_prefix)
      with "2.prems"(3) Cons have b: "b = CHR ''0''" by (auto simp: prefix_def)
      then have x: "x = (code @ ''0'') @ y' @ z" using "2.prems"(3) Cons by simp
      from "2.IH"(1)[OF sl L x "2.prems"(4)] obtain cur where
        "step_into root l y' acc = Inr (acc, cur)" "size cur \<le> size l" by blast
      moreover have "step_into root ?a y acc = step_into root l y' acc"
        using nt b Cons
        by (simp add: step_into_def[of root ?a] decode_loop_Cons del: decode_loop.simps(2))
      ultimately show ?thesis using Cons by auto
    next
      case R
      then have "prefix (code @ ''1'') x" by (rule codes_list_prefix)
      with "2.prems"(3) Cons have b: "b = CHR ''1''" by (auto simp: prefix_def)
      then have x: "x = (code @ ''1'') @ y' @ z" using "2.prems"(3) Cons by simp
      from "2.IH"(2)[OF sr R x "2.prems"(4)] obtain cur where
        "step_into root r y' acc = Inr (acc, cur)" "size cur \<le> size r" by blast
      moreover have "step_into root ?a y acc = step_into root r y' acc"
        using nt b Cons
        by (simp add: step_into_def[of root ?a] decode_loop_Cons del: decode_loop.simps(2))
      ultimately show ?thesis using Cons by auto
    qed
  qed
qed simp_all

text \<open>
  Claim C5, as the code has it. Take a tree built from a table with at least two entries
  and a stream whose first eight bits are a number. When the payload is the codes of
  the symbols \<open>ks\<close> followed by a non-empty proper beginning of a code, so that it does
  not end at a leaf, \<^verbatim>\<open>decode_data\<close> reports no error: the loop ends at a node other
  than the root with exactly \<open>ks\<close> decoded, \<^verbatim>\<open>decode_data\<close> returns their
  concatenation, and the bits of the unfinished code are dropped.
\<close>

theorem decode_truncates_silently:
  assumes b: "build_huffman_tree frequency = Inr t" and len: "2 \<le> length frequency"
    and h: "int_base2 (take 8 encoded_data) = Inr padding"
    and payload: "slice_8_to_minus encoded_data padding =
                    concat (map (\<lambda>k. the (build_codes t k)) ks) @ rest"
    and ks: "\<forall>k \<in> set ks. build_codes t k \<noteq> None"
    and partial: "build_codes t k0 = Some (rest @ missing)" "rest \<noteq> []" "missing \<noteq> []"
  shows "decode_data encoded_data t = Inr (concat ks) \<and>
         (\<exists>current_node. decode_loop t t (slice_8_to_minus encoded_data padding) [] =
                            Inr (ks, current_node) \<and> current_node \<noteq> t)"
proof -
  have s: "strict_tree t" using b by (rule build_huffman_tree_strict)
  from builder_root_inner[OF b len] obtain f l r where inner: "t = HuffmanNode None f (Some l) (Some r)"
    by blast
  have nt: "\<not> truthy (char t)" using inner by (simp add: truthy_def)
  have e: "rest @ missing = [] @ rest @ missing" by simp
  have "\<exists>cur. step_into t t rest ks = Inr (ks, cur) \<and> size cur \<le> size t \<and>
           (rest \<noteq> [] \<longrightarrow> size cur < size t)"
    by (rule walk_partial[OF s build_codes_entry[OF partial(1)] e partial(3)])
  then obtain cur where c: "step_into t t rest ks = Inr (ks, cur)" and sz: "size cur < size t"
    using partial(2) by auto
  have "decode_loop t t rest ks = Inr (ks, cur)" using c nt by (simp add: step_into_def)
  then have d: "decode_loop t t (slice_8_to_minus encoded_data padding) [] = Inr (ks, cur)"
    unfolding payload using decode_symbols[OF s inner ks, of rest "[]"] by simp
  moreover have "cur \<noteq> t" using sz by auto
  moreover have "decode_data encoded_data t = Inr (concat ks)"
    using h d by (simp add: decode_data_def)
  ultimately show ?thesis by blast
qed

theorem decode_truncates_silently_witness:
  "build_huffman_tree [(''C'', 2), (''B'', 3), (''A'', 5)] = Inr (HuffmanNode None 10 (Some (HuffmanNode (Some ''A'') 5 None None))
        (Some (HuffmanNode None 5 (Some (HuffmanNode (Some ''C'') 2 None None))
                (Some (HuffmanNode (Some ''B'') 3 None None))))) \<and>
   int_base2 (take 8 ''0000000110101111'') = Inr 1 \<and>
   slice_8_to_minus ''0000000110101111'' 1 =
     concat (map (\<lambda>k. the (build_codes (HuffmanNode None 10 (Some (HuffmanNode (Some ''A'') 5 None None))
        (Some (HuffmanNode None 5 (Some (HuffmanNode (Some ''C'') 2 None None))
                (Some (HuffmanNode (Some ''B'') 3 None None))))) k)) [''C'', ''C'', ''B'']) @ ''1'' \<and>
   build_codes (HuffmanNode None 10 (Some (HuffmanNode (Some ''A'') 5 None None))
        (Some (HuffmanNode None 5 (Some (HuffmanNode (Some ''C'') 2 None None))
                (Some (HuffmanNode (Some ''B'') 3 None None))))) ''C'' = Some (''1'' @ ''0'') \<and>
   decode_data ''0000000110101111'' (HuffmanNode None 10 (Some (HuffmanNode (Some ''A'') 5 None None))
        (Some (HuffmanNode None 5 (Some (HuffmanNode (Some ''C'') 2 None None))
                (Some (HuffmanNode (Some ''B'') 3 None None))))) = Inr (concat [''C'', ''C'', ''B'']) \<and>
   (\<exists>current_node.
      decode_loop (HuffmanNode None 10 (Some (HuffmanNode (Some ''A'') 5 None None))
        (Some (HuffmanNode None 5 (Some (HuffmanNode (Some ''C'') 2 None None))
                (Some (HuffmanNode (Some ''B'') 3 None None))))) (HuffmanNode None 10 (Some (HuffmanNode (Some ''A'') 5 None None))
        (Some (HuffmanNode None 5 (Some (HuffmanNode (Some ''C'') 2 None None))
                (Some (HuffmanNode (Some ''B'') 3 None None))))) (slice_8_to_minus ''0000000110101111'' 1) [] =
        Inr ([''C'', ''C'', ''B''], current_node) \<and>
      current_node \<noteq> (HuffmanNode None 10 (Some (HuffmanNode (Some ''A'') 5 None None))
        (Some (HuffmanNode None 5 (Some (HuffmanNode (Some ''C'') 2 None None))
                (Some (HuffmanNode (Some ''B'') 3 None None))))))"
proof -
  have b: "build_huffman_tree [(''C'', 2), (''B'', 3), (''A'', 5)] = Inr (HuffmanNode None 10 (Some (HuffmanNode (Some ''A'') 5 None None))
        (Some (HuffmanNode None 5 (Some (HuffmanNode (Some ''C'') 2 None None))
                (Some (HuffmanNode (Some ''B'') 3 None None)))))"
    by code_simp
  have h: "int_base2 (take 8 ''0000000110101111'') = Inr 1" by code_simp
  have p: "slice_8_to_minus ''0000000110101111'' 1 =
     concat (map (\<lambda>k. the (build_codes (HuffmanNode None 10 (Some (HuffmanNode (Some ''A'') 5 None None))
        (Some (HuffmanNode None 5 (Some (HuffmanNode (Some ''C'') 2 None None))
                (Some (HuffmanNode (Some ''B'') 3 None None))))) k)) [''C'', ''C'', ''B'']) @ ''1''"
    by code_simp
  have k: "\<forall>k \<in> set [''C'', ''C'', ''B'']. build_codes (HuffmanNode None 10 (Some (HuffmanNode (Some ''A'') 5 None None))
        (Some (HuffmanNode None 5 (Some (HuffmanNode (Some ''C'') 2 None None))
                (Some (HuffmanNode (Some ''B'') 3 None None))))) k \<noteq> None"
    by code_simp
  have c: "build_codes (HuffmanNode None 10 (Some (HuffmanNode (Some ''A'') 5 None None))
        (Some (HuffmanNode None 5 (Some (HuffmanNode (Some ''C'') 2 None None))
                (Some (HuffmanNode (Some ''B'') 3 None None))))) ''C'' = Some (''1'' @ ''0'')" by code_simp
  have l: "2 \<le> length [(''C'', 2::nat), (''B'', 3), (''A'', 5)]" by simp
  have r: "''1'' \<noteq> []" "''0'' \<noteq> []" by simp_all
  from decode_truncates_silently[OF b l h p k c r] b h p c show ?thesis by blast
qed

section \<open>The queue is a heap\<close>

lemma edge_parent: "edge j c \<Longrightarrow> (c - 1) div 2 = j \<and> j < c"
  by (auto simp: edge_def)

lemma parent_edge: "0 < c \<Longrightarrow> edge ((c - 1) div 2) c"
  unfolding edge_def by presburger

lemma desc_le: "desc s p \<Longrightarrow> s \<le> p"
  by (induction rule: desc.induct) (auto dest: edge_parent)

lemma desc_parent: "desc s p \<Longrightarrow> s < p \<Longrightarrow> desc s ((p - 1) div 2)"
  by (cases rule: desc.cases) (auto dest: edge_parent)

lemma desc_zero: "desc 0 p"
proof (induction p rule: less_induct)
  case (less p)
  show ?case
  proof (cases "p = 0")
    case True
    then show ?thesis by (simp add: desc_refl)
  next
    case False
    then have e: "edge ((p - 1) div 2) p" by (intro parent_edge) simp
    then have "(p - 1) div 2 < p" by (auto dest: edge_parent)
    from less[OF this] e show ?thesis by (rule desc_step)
  qed
qed

lemma siftdown_loop_heap:
  "hole_ok heap newitem startpos pos \<Longrightarrow> heap_from startpos (siftdown_loop heap newitem startpos pos)"
proof (induction heap newitem startpos pos rule: siftdown_loop.induct)
  case (1 heap x s p)
  let ?q = "(p - 1) div 2"
  from "1.prems" have pl: "p < length heap" and d: "desc s p"
    and a: "\<And>j c. s \<le> j \<Longrightarrow> edge j c \<Longrightarrow> c < length heap \<Longrightarrow> j \<noteq> p \<Longrightarrow> c \<noteq> p \<Longrightarrow>
             freq (heap ! j) \<le> freq (heap ! c)"
    and g: "\<And>j c. s \<le> j \<Longrightarrow> edge j p \<Longrightarrow> edge p c \<Longrightarrow> c < length heap \<Longrightarrow>
             freq (heap ! j) \<le> freq (heap ! c)"
    and b: "\<And>c. edge p c \<Longrightarrow> c < length heap \<Longrightarrow> freq x \<le> freq (heap ! c)"
    by (auto simp: hole_ok_def up_ok_def)
  show ?case
  proof (cases "s < p \<and> lt x (heap ! ?q)")
    case True
    then have sp: "s < p" and lt: "freq x < freq (heap ! ?q)" by (auto simp: lt_def)
    have eq: "edge ?q p" using sp by (intro parent_edge) simp
    then have qp: "?q < p" by (auto dest: edge_parent)
    have dq: "desc s ?q" using d sp by (rule desc_parent)
    then have sq: "s \<le> ?q" by (rule desc_le)
    let ?h = "heap[p := heap ! ?q]"
    have unf: "siftdown_loop heap x s p = siftdown_loop ?h x s ?q"
      using True by (subst siftdown_loop.simps) (simp add: Let_def)
    have "hole_ok ?h x s ?q"
      unfolding hole_ok_def up_ok_def
    proof (intro conjI allI impI)
      show "?q < length ?h" using qp pl by simp
      show "desc s ?q" by (rule dq)
    next
      fix j c
      assume h: "s \<le> j" "edge j c" "c < length ?h" "j \<noteq> ?q" "c \<noteq> ?q"
      then have jc: "j < c" by (auto dest: edge_parent)
      show "freq (?h ! j) \<le> freq (?h ! c)"
      proof (cases "j = p")
        case True
        then have "freq (heap ! ?q) \<le> freq (heap ! c)" using g[OF sq eq] h by simp
        then show ?thesis using True jc pl by simp
      next
        case False
        have "c \<noteq> p" using h eq by (auto dest!: edge_parent)
        then show ?thesis using False a[of j c] h by simp
      qed
    next
      fix j c
      assume h: "s \<le> j" "edge j ?q" "edge ?q c" "c < length ?h"
      then have jq: "j < ?q" by (auto dest: edge_parent)
      have 1: "freq (heap ! j) \<le> freq (heap ! ?q)" using a[of j ?q] h jq qp pl by simp
      show "freq (?h ! j) \<le> freq (?h ! c)"
      proof (cases "c = p")
        case True
        then show ?thesis using 1 jq qp pl by simp
      next
        case False
        have "?q < c" using h by (auto dest: edge_parent)
        then have "freq (heap ! ?q) \<le> freq (heap ! c)" using a[of ?q c] h sq False qp by simp
        then show ?thesis using 1 False jq qp by simp
      qed
    next
      fix c
      assume h: "edge ?q c" "c < length ?h"
      show "freq x \<le> freq (?h ! c)"
      proof (cases "c = p")
        case True
        then show ?thesis using lt pl by simp
      next
        case False
        then have "freq (heap ! ?q) \<le> freq (heap ! c)" using a[of ?q c] h sq qp by simp
        then show ?thesis using lt False by simp
      qed
    qed
    with True unf "1.IH"[OF _ refl refl] show ?thesis by simp
  next
    case False
    have res: "siftdown_loop heap x s p = heap[p := x]"
      using False by (subst siftdown_loop.simps) (auto simp: Let_def)
    have "heap_from s (heap[p := x])"
      unfolding heap_from_def
    proof (intro allI impI)
      fix j c
      assume h: "s \<le> j" "edge j c" "c < length (heap[p := x])"
      then have jc: "j < c" and par: "(c - 1) div 2 = j" by (auto dest: edge_parent)
      show "freq (heap[p := x] ! j) \<le> freq (heap[p := x] ! c)"
      proof (cases "c = p")
        case True
        with h jc have "s < p" by simp
        with False par True have "freq (heap ! j) \<le> freq x" by (simp add: lt_def)
        then show ?thesis using True jc pl by simp
      next
        case cp: False
        show ?thesis
        proof (cases "j = p")
          case True
          then show ?thesis using b[of c] h cp pl by simp
        next
          case False
          then show ?thesis using a[of j c] h cp by simp
        qed
      qed
    qed
    with res show ?thesis by simp
  qed
qed

lemma hole_ok_update: "hole_ok (h[p := v]) x s p = hole_ok h x s p"
proof -
  have e1: "j \<noteq> p" if "edge j p" for j using that by (auto dest: edge_parent)
  have e2: "c \<noteq> p" if "edge p c" for c using that by (auto dest: edge_parent)
  have 1: "(\<forall>j c. s \<le> j \<longrightarrow> edge j c \<longrightarrow> c < length (h[p := v]) \<longrightarrow> j \<noteq> p \<longrightarrow> c \<noteq> p \<longrightarrow>
             freq (h[p := v] ! j) \<le> freq (h[p := v] ! c)) =
           (\<forall>j c. s \<le> j \<longrightarrow> edge j c \<longrightarrow> c < length h \<longrightarrow> j \<noteq> p \<longrightarrow> c \<noteq> p \<longrightarrow>
             freq (h ! j) \<le> freq (h ! c))"
    by simp
  have 2: "(\<forall>j c. s \<le> j \<longrightarrow> edge j p \<longrightarrow> edge p c \<longrightarrow> c < length (h[p := v]) \<longrightarrow>
             freq (h[p := v] ! j) \<le> freq (h[p := v] ! c)) =
           (\<forall>j c. s \<le> j \<longrightarrow> edge j p \<longrightarrow> edge p c \<longrightarrow> c < length h \<longrightarrow>
             freq (h ! j) \<le> freq (h ! c))"
    using e1 e2 by (metis length_list_update nth_list_update_neq)
  have 3: "(\<forall>c. edge p c \<longrightarrow> c < length (h[p := v]) \<longrightarrow> freq x \<le> freq (h[p := v] ! c)) =
           (\<forall>c. edge p c \<longrightarrow> c < length h \<longrightarrow> freq x \<le> freq (h ! c))"
    using e2 by (metis length_list_update nth_list_update_neq)
  show ?thesis unfolding hole_ok_def up_ok_def 1 2 3 by simp
qed

lemma siftdown_heap:
  "hole_ok heap (heap ! pos) startpos pos \<Longrightarrow> heap_from startpos (siftdown heap startpos pos)"
  by (simp add: siftdown_def siftdown_loop_heap)

lemma siftup_loop_heap:
  "up_ok heap s pos \<Longrightarrow> siftup_loop heap (length heap) pos = (heap', pos') \<Longrightarrow>
     up_ok heap' s pos' \<and> length heap' = length heap \<and> \<not> 2 * pos' + 1 < length heap'"
proof (induction heap "length heap" pos arbitrary: heap' pos' rule: siftup_loop.induct)
  case (1 heap p)
  let ?n = "length heap"
  let ?l = "2 * p + 1"
  let ?c = "if ?l + 1 < ?n \<and> \<not> lt (heap ! ?l) (heap ! (?l + 1)) then ?l + 1 else ?l"
  from "1.prems"(1) have pl: "p < ?n" and d: "desc s p"
    and a: "\<And>j c. s \<le> j \<Longrightarrow> edge j c \<Longrightarrow> c < ?n \<Longrightarrow> j \<noteq> p \<Longrightarrow> c \<noteq> p \<Longrightarrow>
             freq (heap ! j) \<le> freq (heap ! c)"
    and g: "\<And>j c. s \<le> j \<Longrightarrow> edge j p \<Longrightarrow> edge p c \<Longrightarrow> c < ?n \<Longrightarrow>
             freq (heap ! j) \<le> freq (heap ! c)"
    by (auto simp: up_ok_def)
  show ?case
  proof (cases "?l < ?n")
    case True
    then have cn: "?c < ?n" and pc: "p < ?c" and ec: "edge p ?c" by (auto simp: edge_def)
    let ?h = "heap[p := heap ! ?c]"
    have "siftup_loop heap ?n p = siftup_loop ?h ?n ?c"
      using True by (subst siftup_loop.simps) (simp only: Let_def if_True)
    with "1.prems"(2) have step: "siftup_loop ?h (length ?h) ?c = (heap', pos')" by simp
    have sp: "s \<le> p" using d by (rule desc_le)
    have small: "freq (heap ! ?c) \<le> freq (heap ! c)" if "edge p c" "c < ?n" for c
      using that by (auto simp: edge_def lt_def split: if_splits)
    have "up_ok ?h s ?c"
      unfolding up_ok_def
    proof (intro conjI allI impI)
      show "?c < length ?h" using cn by simp
      show "desc s ?c" using d ec by (rule desc_step)
    next
      fix j c
      assume h: "s \<le> j" "edge j c" "c < length ?h" "j \<noteq> ?c" "c \<noteq> ?c"
      then have jc: "j < c" by (auto dest: edge_parent)
      show "freq (?h ! j) \<le> freq (?h ! c)"
      proof (cases "j = p")
        case True
        then show ?thesis using small[of c] h jc pl by simp
      next
        case jp: False
        show ?thesis
        proof (cases "c = p")
          case True
          then have "freq (heap ! j) \<le> freq (heap ! ?c)" using g[of j ?c] h ec cn by simp
          then show ?thesis using True jp pl by simp
        next
          case False
          then show ?thesis using a[of j c] h jp by simp
        qed
      qed
    next
      fix j c
      assume h: "s \<le> j" "edge j ?c" "edge ?c c" "c < length ?h"
      then have j: "j = p" using ec by (auto dest!: edge_parent)
      have cc: "?c < c" using h by (auto dest: edge_parent)
      have "freq (heap ! ?c) \<le> freq (heap ! c)"
        using a[of ?c c] h sp pc cc by simp
      then show "freq (?h ! j) \<le> freq (?h ! c)" using j pl pc cc by simp
    qed
    from "1.hyps"[OF refl True refl refl _ this step] show ?thesis by simp
  next
    case False
    then have "siftup_loop heap ?n p = (heap, p)"
      by (subst siftup_loop.simps) (simp add: Let_def)
    with "1.prems" False show ?thesis by simp
  qed
qed

lemma heap_from_up_ok:
  "heap_from (Suc p) h \<Longrightarrow> p < length h \<Longrightarrow> up_ok h p p"
  unfolding heap_from_def up_ok_def
  by (auto simp: desc_refl dest: edge_parent)

lemma siftup_heap:
  assumes "heap_from (Suc pos) heap" and "pos < length heap"
  shows "heap_from pos (siftup heap pos)"
proof -
  obtain heap' pos' where s: "siftup_loop heap (length heap) pos = (heap', pos')"
    by (cases "siftup_loop heap (length heap) pos")
  from siftup_loop_heap[OF heap_from_up_ok[OF assms] s]
  have u: "up_ok heap' pos pos'" and leaf: "\<not> 2 * pos' + 1 < length heap'" by auto
  let ?x = "heap ! pos"
  have "hole_ok heap' ?x pos pos'"
    unfolding hole_ok_def using u leaf by (auto simp: edge_def)
  then have "hole_ok (heap'[pos' := ?x]) ?x pos pos'" by (simp add: hole_ok_update)
  moreover have "pos' < length heap'" using u by (simp add: up_ok_def)
  ultimately have "heap_from pos (siftdown (heap'[pos' := ?x]) pos pos')"
    by (intro siftdown_heap) simp
  with s show ?thesis by (simp add: siftup_def)
qed

lemma heap_from_mono: "heap_from k h \<Longrightarrow> k \<le> k' \<Longrightarrow> heap_from k' h"
  by (auto simp: heap_from_def)

lemma heapify_loop_heap:
  "heap_from i x \<Longrightarrow> i \<le> length x \<Longrightarrow> heap_from 0 (heapify_loop i x)"
proof (induction i arbitrary: x)
  case 0
  then show ?case by simp
next
  case (Suc i)
  then have "heap_from i (siftup x i)" by (intro siftup_heap) auto
  then show ?case using Suc.prems by (auto intro: Suc.IH)
qed

lemma heapify_heap: "heap_from 0 (heapify x)"
proof -
  have "heap_from (length x div 2) x" by (auto simp: heap_from_def edge_def)
  then show ?thesis unfolding heapify_def by (intro heapify_loop_heap) auto
qed

lemma heappush_heap:
  assumes "heap_from 0 heap"
  shows "heap_from 0 (heappush heap item)"
proof -
  let ?h = "heap @ [item]"
  let ?p = "length heap"
  have "hole_ok ?h (?h ! ?p) 0 ?p"
    unfolding hole_ok_def up_ok_def
  proof (intro conjI allI impI)
    show "?p < length ?h" by simp
    show "desc 0 ?p" by (rule desc_zero)
  next
    fix j c
    assume h: "0 \<le> j" "edge j c" "c < length ?h" "j \<noteq> ?p" "c \<noteq> ?p"
    then have "j < c" "c < length heap" by (auto dest: edge_parent)
    then show "freq (?h ! j) \<le> freq (?h ! c)"
      using assms h by (auto simp: heap_from_def nth_append)
  next
    fix j c
    assume "edge ?p c" "c < length ?h"
    then show "freq (?h ! j) \<le> freq (?h ! c)" by (auto dest: edge_parent)
  next
    fix c
    assume "edge ?p c" "c < length ?h"
    then show "freq (?h ! ?p) \<le> freq (?h ! c)" by (auto dest: edge_parent)
  qed
  then have "heap_from 0 (siftdown ?h 0 ?p)" by (rule siftdown_heap)
  then show ?thesis by (simp add: heappush_def Let_def)
qed

lemma heap_root_least:
  assumes "heap_from 0 h"
  shows "i < length h \<Longrightarrow> freq (h ! 0) \<le> freq (h ! i)"
proof (induction i rule: less_induct)
  case (less i)
  show ?case
  proof (cases "i = 0")
    case True
    then show ?thesis by simp
  next
    case False
    then have e: "edge ((i - 1) div 2) i" by (intro parent_edge) simp
    then have lt: "(i - 1) div 2 < i" by (auto dest: edge_parent)
    have "freq (h ! 0) \<le> freq (h ! ((i - 1) div 2))" using less lt by simp
    also have "\<dots> \<le> freq (h ! i)" using assms e less.prems by (simp add: heap_from_def)
    finally show ?thesis .
  qed
qed

lemma heappop_heap:
  assumes "heap_from 0 heap" and "heappop heap = Inr (x, heap')"
  shows "heap_from 0 heap' \<and> (\<forall>y \<in># mset heap. freq x \<le> freq y)"
proof -
  from assms(2) have ne: "heap \<noteq> []" by (auto simp: heappop_def)
  then obtain bl l where h: "heap = bl @ [l]" by (metis append_butlast_last_id)
  show ?thesis
  proof (cases "bl = []")
    case True
    with assms(2) h show ?thesis by (auto simp: heappop_def heap_from_def)
  next
    case False
    then have x: "x = heap ! 0" and h': "heap' = siftup (bl[0 := l]) 0"
      using assms(2) h by (auto simp: heappop_def Let_def nth_append)
    have "heap_from (Suc 0) (bl[0 := l])"
      unfolding heap_from_def
    proof (intro allI impI)
      fix j c
      assume a: "Suc 0 \<le> j" "edge j c" "c < length (bl[0 := l])"
      then have jc: "j < c" by (auto dest: edge_parent)
      from a have "c < length heap" using h by simp
      with assms(1) a have "freq (heap ! j) \<le> freq (heap ! c)" by (simp add: heap_from_def)
      with a jc h show "freq (bl[0 := l] ! j) \<le> freq (bl[0 := l] ! c)"
        by (simp add: nth_append)
    qed
    then have 1: "heap_from 0 heap'" unfolding h' using False by (intro siftup_heap) auto
    have "freq x \<le> freq y" if "y \<in> set heap" for y
    proof -
      from that obtain i where "i < length heap" "heap ! i = y" by (auto simp: in_set_conv_nth)
      with heap_root_least[OF assms(1), of i] x show ?thesis by simp
    qed
    with 1 show ?thesis by simp
  qed
qed

section \<open>Trees of weights\<close>

lemma length_depths [simp]: "length (depths t) = length (wleaves t)"
  by (induction t) auto

lemma wleaves_nonempty [simp]: "wleaves t \<noteq> []"
  by (induction t) auto

lemma dot_append:
  "length ws1 = length ds1 \<Longrightarrow> dot (ws1 @ ws2) (ds1 @ ds2) = dot ws1 ds1 + dot ws2 ds2"
  by (simp add: dot_def)

lemma dot_Suc: "length ws = length ds \<Longrightarrow> dot ws (map Suc ds) = dot ws ds + sum_list ws"
  unfolding dot_def
  by (induction ws ds rule: list_induct2) auto

lemma wcost_dot: "wcost t = dot (wleaves t) (depths t)"
proof (induction t)
  case (WL w)
  show ?case by (simp add: dot_def)
next
  case (WN l r)
  have "dot (wleaves l @ wleaves r) (map Suc (depths l) @ map Suc (depths r)) =
          dot (wleaves l) (depths l) + sum_list (wleaves l) +
          (dot (wleaves r) (depths r) + sum_list (wleaves r))"
    by (simp add: dot_append dot_Suc)
  with WN show ?case by simp
qed

lemma wleaves_relabel:
  "length ws = length (wleaves t) \<Longrightarrow> wleaves (relabel t ws) = ws"
proof (induction t arbitrary: ws)
  case (WL w)
  then show ?case by (cases ws) auto
next
  case (WN l r)
  then show ?case by simp
qed

lemma depths_relabel:
  "length ws = length (wleaves t) \<Longrightarrow> depths (relabel t ws) = depths t"
  by (induction t arbitrary: ws) auto

lemma depths_le_height: "d \<in> set (depths t) \<Longrightarrow> d \<le> height_w t"
  by (induction t arbitrary: d) (auto simp: le_max_iff_disj)

lemma wcost_relabel:
  "length ws = length (wleaves t) \<Longrightarrow> wcost (relabel t ws) = dot ws (depths t)"
  by (simp add: wcost_dot wleaves_relabel depths_relabel)

lemma height_zero: "height_w t = 0 \<Longrightarrow> \<exists>w. t = WL w"
  by (cases t) auto

lemma sum_list_of_merge:
  fixes xs ys :: "nat list"
  assumes "mset xs + {#a, b#} = mset ys + {#a + b#}"
  shows "sum_list xs = sum_list ys"
proof -
  have "sum_mset (mset xs + {#a, b#}) = sum_mset (mset ys + {#a + b#})" using assms by simp
  then show ?thesis by (simp add: sum_mset_sum_list)
qed

lemma merge_deepest:
  "0 < height_w t \<Longrightarrow>
     \<exists>i. Suc i < length (wleaves t) \<and> depths t ! i = height_w t \<and> depths t ! Suc i = height_w t \<and>
       (\<forall>ws. length ws = length (wleaves t) \<longrightarrow>
          (\<exists>t'. mset (wleaves t') + {#ws ! i, ws ! Suc i#} = mset ws + {#ws ! i + ws ! Suc i#} \<and>
                wcost t' + ws ! i + ws ! Suc i = dot ws (depths t)))"
proof (induction t)
  case (WL w)
  then show ?case by simp
next
  case (WN l r)
  let ?nl = "length (wleaves l)"
  let ?nr = "length (wleaves r)"
  have split_dot: "dot ws (depths (WN l r)) =
      dot (take ?nl ws) (depths l) + sum_list (take ?nl ws) +
      (dot (drop ?nl ws) (depths r) + sum_list (drop ?nl ws))"
    if "length ws = ?nl + ?nr" for ws
  proof -
    have "dot (take ?nl ws @ drop ?nl ws) (map Suc (depths l) @ map Suc (depths r)) =
      dot (take ?nl ws) (depths l) + sum_list (take ?nl ws) +
      (dot (drop ?nl ws) (depths r) + sum_list (drop ?nl ws))"
      using that by (subst dot_append) (simp_all add: dot_Suc)
    then show ?thesis by simp
  qed
  consider (both) "height_w l = 0" "height_w r = 0"
    | (left) "0 < height_w l" "height_w r \<le> height_w l"
    | (right) "0 < height_w r" "height_w l \<le> height_w r"
    by linarith
  then show ?case
  proof cases
    case both
    then obtain a b where lr: "l = WL a" "r = WL b" using height_zero by blast
    have "\<exists>t'. mset (wleaves t') + {#ws ! 0, ws ! Suc 0#} = mset ws + {#ws ! 0 + ws ! Suc 0#} \<and>
                wcost t' + ws ! 0 + ws ! Suc 0 = dot ws (depths (WN l r))"
      if "length ws = 2" for ws
    proof -
      from that obtain x y where ws: "ws = [x, y]"
        by (cases ws; cases "tl ws") auto
      show ?thesis unfolding ws lr
        by (intro exI[of _ "WL (x + y)"]) (simp add: dot_def)
    qed
    then show ?thesis unfolding lr by (intro exI[of _ 0]) simp
  next
    case left
    from WN.IH(1)[OF left(1)] obtain i where
      i: "Suc i < ?nl" "depths l ! i = height_w l" "depths l ! Suc i = height_w l" and
      m: "\<And>ws. length ws = ?nl \<Longrightarrow>
          \<exists>t'. mset (wleaves t') + {#ws ! i, ws ! Suc i#} = mset ws + {#ws ! i + ws ! Suc i#} \<and>
                wcost t' + ws ! i + ws ! Suc i = dot ws (depths l)"
      by blast
    have h: "height_w (WN l r) = Suc (height_w l)" using left by simp
    have d1: "depths (WN l r) ! i = height_w (WN l r)" "depths (WN l r) ! Suc i = height_w (WN l r)"
      using i h by (simp_all add: nth_append)
    have "\<exists>t'. mset (wleaves t') + {#ws ! i, ws ! Suc i#} = mset ws + {#ws ! i + ws ! Suc i#} \<and>
                wcost t' + ws ! i + ws ! Suc i = dot ws (depths (WN l r))"
      if len: "length ws = ?nl + ?nr" for ws
    proof -
      let ?w1 = "take ?nl ws" and ?w2 = "drop ?nl ws"
      have l1: "length ?w1 = ?nl" and l2: "length ?w2 = ?nr" using len by simp_all
      have nth: "?w1 ! i = ws ! i" "?w1 ! Suc i = ws ! Suc i" using i by simp_all
      from m[OF l1] obtain l' where
        ml: "mset (wleaves l') + {#ws ! i, ws ! Suc i#} = mset ?w1 + {#ws ! i + ws ! Suc i#}" and
        cl: "wcost l' + ws ! i + ws ! Suc i = dot ?w1 (depths l)"
        unfolding nth by blast
      let ?t = "WN l' (relabel r ?w2)"
      have wr: "wleaves (relabel r ?w2) = ?w2" using l2 by (rule wleaves_relabel)
      have sp: "mset ws = mset ?w1 + mset ?w2" by (metis append_take_drop_id mset_append)
      have "mset (wleaves ?t) + {#ws ! i, ws ! Suc i#} =
              (mset (wleaves l') + {#ws ! i, ws ! Suc i#}) + mset ?w2"
        by (simp add: wr)
      also have "\<dots> = (mset ?w1 + {#ws ! i + ws ! Suc i#}) + mset ?w2" by (simp only: ml)
      also have "\<dots> = mset ws + {#ws ! i + ws ! Suc i#}" unfolding sp by simp
      finally have 1: "mset (wleaves ?t) + {#ws ! i, ws ! Suc i#} = mset ws + {#ws ! i + ws ! Suc i#}" .
      have sl: "sum_list (wleaves l') = sum_list ?w1" using ml by (rule sum_list_of_merge)
      have "wcost ?t + ws ! i + ws ! Suc i = dot ws (depths (WN l r))"
        using cl sl wr wcost_relabel[OF l2] split_dot[OF len] by simp
      with 1 show ?thesis by blast
    qed
    with i d1 show ?thesis by (intro exI[of _ i]) simp
  next
    case right
    from WN.IH(2)[OF right(1)] obtain i where
      i: "Suc i < ?nr" "depths r ! i = height_w r" "depths r ! Suc i = height_w r" and
      m: "\<And>ws. length ws = ?nr \<Longrightarrow>
          \<exists>t'. mset (wleaves t') + {#ws ! i, ws ! Suc i#} = mset ws + {#ws ! i + ws ! Suc i#} \<and>
                wcost t' + ws ! i + ws ! Suc i = dot ws (depths r)"
      by blast
    let ?k = "?nl + i"
    have h: "height_w (WN l r) = Suc (height_w r)" using right by simp
    have d1: "depths (WN l r) ! ?k = height_w (WN l r)" "depths (WN l r) ! Suc ?k = height_w (WN l r)"
      using i h by (simp_all add: nth_append)
    have "\<exists>t'. mset (wleaves t') + {#ws ! ?k, ws ! Suc ?k#} = mset ws + {#ws ! ?k + ws ! Suc ?k#} \<and>
                wcost t' + ws ! ?k + ws ! Suc ?k = dot ws (depths (WN l r))"
      if len: "length ws = ?nl + ?nr" for ws
    proof -
      let ?w1 = "take ?nl ws" and ?w2 = "drop ?nl ws"
      have l1: "length ?w1 = ?nl" and l2: "length ?w2 = ?nr" using len by simp_all
      have nth: "?w2 ! i = ws ! ?k" "?w2 ! Suc i = ws ! Suc ?k" using i len by simp_all
      from m[OF l2] obtain r' where
        mr: "mset (wleaves r') + {#ws ! ?k, ws ! Suc ?k#} = mset ?w2 + {#ws ! ?k + ws ! Suc ?k#}" and
        cr: "wcost r' + ws ! ?k + ws ! Suc ?k = dot ?w2 (depths r)"
        unfolding nth by blast
      let ?t = "WN (relabel l ?w1) r'"
      have wl: "wleaves (relabel l ?w1) = ?w1" using l1 by (rule wleaves_relabel)
      have sp: "mset ws = mset ?w1 + mset ?w2" by (metis append_take_drop_id mset_append)
      have "mset (wleaves ?t) + {#ws ! ?k, ws ! Suc ?k#} =
              mset ?w1 + (mset (wleaves r') + {#ws ! ?k, ws ! Suc ?k#})"
        by (simp add: wl)
      also have "\<dots> = mset ?w1 + (mset ?w2 + {#ws ! ?k + ws ! Suc ?k#})" by (simp only: mr)
      also have "\<dots> = mset ws + {#ws ! ?k + ws ! Suc ?k#}" unfolding sp by simp
      finally have 1: "mset (wleaves ?t) + {#ws ! ?k, ws ! Suc ?k#} = mset ws + {#ws ! ?k + ws ! Suc ?k#}" .
      have sl: "sum_list (wleaves r') = sum_list ?w2" using mr by (rule sum_list_of_merge)
      have "wcost ?t + ws ! ?k + ws ! Suc ?k = dot ws (depths (WN l r))"
        using cr sl wl wcost_relabel[OF l1] split_dot[OF len] by simp
      with 1 show ?thesis by blast
    qed
    with i d1 show ?thesis by (intro exI[of _ ?k]) simp
  qed
qed

lemma dot_sum: "length ws = length ds \<Longrightarrow> dot ws ds = (\<Sum>j<length ws. ws ! j * ds ! j)"
proof -
  assume l: "length ws = length ds"
  have "dot ws ds = (\<Sum>j = 0..<length (zip ws ds). (map (\<lambda>(w, d). w * d) (zip ws ds)) ! j)"
    unfolding dot_def by (subst sum_list_sum_nth) simp
  also have "\<dots> = (\<Sum>j = 0..<length ws. ws ! j * ds ! j)"
    using l by (intro sum.cong) auto
  finally show ?thesis by (simp add: lessThan_atLeast0)
qed

lemma swap_arith:
  fixes a b c d :: nat
  assumes "a \<le> b" and "c \<le> d"
  shows "a * d + b * c \<le> b * d + a * c"
proof -
  from assms obtain p q where "b = a + p" "d = c + q" by (auto simp: le_iff_add)
  then show ?thesis by (simp add: algebra_simps)
qed

lemma swap_dot:
  assumes len: "length ws = length ds" and i: "i < length ws" and k: "k < length ws"
    and w: "ws ! k \<le> ws ! i" and d: "ds ! k \<le> ds ! i"
  shows "dot (ws[i := ws ! k, k := ws ! i]) ds \<le> dot ws ds"
proof (cases "i = k")
  case True
  then show ?thesis by simp
next
  case False
  let ?ws = "ws[i := ws ! k, k := ws ! i]"
  let ?A = "{..<length ws} - {i} - {k}"
  let ?f = "\<lambda>j. ws ! j * ds ! j"
  let ?g = "\<lambda>j. ?ws ! j * ds ! j"
  have split: "sum h {..<length ws} = h i + (h k + sum h ?A)" for h :: "nat \<Rightarrow> nat"
  proof -
    have "sum h {..<length ws} = h i + sum h ({..<length ws} - {i})"
      using i by (intro sum.remove) auto
    also have "sum h ({..<length ws} - {i}) = h k + sum h ?A"
      using k False by (intro sum.remove) auto
    finally show ?thesis .
  qed
  have rest: "sum ?g ?A = sum ?f ?A" by (intro sum.cong) auto
  have gi: "?g i = ws ! k * ds ! i" and gk: "?g k = ws ! i * ds ! k"
    using i k False by auto
  have "dot ?ws ds = ?g i + (?g k + sum ?g ?A)"
    using len split[of ?g] by (simp add: dot_sum)
  also have "\<dots> = (ws ! k * ds ! i + ws ! i * ds ! k) + sum ?f ?A"
    unfolding gi gk rest by simp
  also have "\<dots> \<le> (ws ! i * ds ! i + ws ! k * ds ! k) + sum ?f ?A"
    using swap_arith[OF w d] by simp
  also have "\<dots> = dot ws ds"
    using len split[of ?f] by (simp add: dot_sum)
  finally show ?thesis .
qed

lemma mset_without_nth:
  "i < length xs \<Longrightarrow> mset xs - {#xs ! i#} = mset (take i xs @ drop (Suc i) xs)"
proof -
  assume "i < length xs"
  then have "xs = take i xs @ xs ! i # drop (Suc i) xs" by (rule id_take_nth_drop)
  then have "mset xs = add_mset (xs ! i) (mset (take i xs @ drop (Suc i) xs))"
    by (metis mset.simps(2) mset_append union_mset_add_mset_right)
  then show ?thesis by simp
qed

lemma other_position_mem:
  assumes "i < length xs" and "k < length xs" and "k \<noteq> i"
  shows "xs ! k \<in># mset xs - {#xs ! i#}"
proof -
  have "xs ! k \<in> set (take i xs) \<union> set (drop (Suc i) xs)"
  proof (cases "k < i")
    case True
    then have "take i xs ! k = xs ! k" "k < length (take i xs)" using assms by simp_all
    then show ?thesis by (metis UnI1 nth_mem)
  next
    case False
    with assms have ki: "Suc i \<le> k" by simp
    then have "drop (Suc i) xs ! (k - Suc i) = xs ! k" "k - Suc i < length (drop (Suc i) xs)"
      using assms by simp_all
    then show ?thesis by (metis UnI2 nth_mem)
  qed
  then show ?thesis using assms(1) by (simp add: mset_without_nth)
qed

lemma mem_other_position:
  assumes "i < length xs" and "x \<in># mset xs - {#xs ! i#}"
  shows "\<exists>k < length xs. k \<noteq> i \<and> xs ! k = x"
proof -
  from assms have "x \<in> set (take i xs) \<or> x \<in> set (drop (Suc i) xs)"
    by (simp add: mset_without_nth)
  then show ?thesis
  proof
    assume "x \<in> set (take i xs)"
    then obtain k where "k < length (take i xs)" "take i xs ! k = x"
      by (auto simp: in_set_conv_nth)
    then have "k < length xs" "k \<noteq> i" "xs ! k = x" using assms(1) by auto
    then show ?thesis by blast
  next
    assume "x \<in> set (drop (Suc i) xs)"
    then obtain j where "j < length (drop (Suc i) xs)" "drop (Suc i) xs ! j = x"
      by (auto simp: in_set_conv_nth)
    then have "Suc i + j < length xs" "Suc i + j \<noteq> i" "xs ! (Suc i + j) = x" using assms(1) by auto
    then show ?thesis by blast
  qed
qed

lemma exchange:
  assumes pos: "0 < height_w t"
    and ab: "{#a, b#} \<subseteq># mset (wleaves t)"
    and amin: "\<forall>x \<in># mset (wleaves t). a \<le> x"
    and bmin: "\<forall>x \<in># mset (wleaves t) - {#a#}. b \<le> x"
  shows "\<exists>t'. mset (wleaves t') + {#a, b#} = mset (wleaves t) + {#a + b#} \<and>
              wcost t' + a + b \<le> wcost t"
proof -
  let ?ws = "wleaves t" and ?ds = "depths t"
  let ?n = "length ?ws"
  from merge_deepest[OF pos] obtain i where
    i: "Suc i < ?n" and di: "?ds ! i = height_w t" and dsi: "?ds ! Suc i = height_w t" and
    m: "\<And>ws. length ws = ?n \<Longrightarrow>
          \<exists>t'. mset (wleaves t') + {#ws ! i, ws ! Suc i#} = mset ws + {#ws ! i + ws ! Suc i#} \<and>
                wcost t' + ws ! i + ws ! Suc i = dot ws ?ds"
    by blast
  have deep: "?ds ! k \<le> height_w t" if "k < ?n" for k
    using that by (intro depths_le_height) simp
  from ab have "a \<in> set ?ws" by (metis insert_subset_eq_iff set_mset_mset)
  then obtain pa where pa: "pa < ?n" "?ws ! pa = a" by (auto simp: in_set_conv_nth)
  define ws1 where "ws1 = ?ws[i := ?ws ! pa, pa := ?ws ! i]"
  have l1: "length ws1 = ?n" by (simp add: ws1_def)
  have m1: "mset ws1 = mset ?ws" unfolding ws1_def using i pa by (intro mset_swap) auto
  have a_le: "a \<le> ?ws ! i" using amin i by simp
  have c1: "dot ws1 ?ds \<le> dot ?ws ?ds"
    unfolding ws1_def using i pa a_le deep[of pa] di by (intro swap_dot) auto
  have w1i: "ws1 ! i = a" using pa i by (auto simp: ws1_def nth_list_update)
  have rest: "mset ws1 - {#ws1 ! i#} = mset ?ws - {#a#}" using m1 w1i by simp
  from ab have "b \<in># mset ?ws - {#a#}" by (simp add: insert_subset_eq_iff)
  then have "b \<in># mset ws1 - {#ws1 ! i#}" using rest by simp
  with mem_other_position[of i ws1 b] i l1 obtain pb where
    pb: "pb < ?n" "pb \<noteq> i" "ws1 ! pb = b" by auto
  have "ws1 ! Suc i \<in># mset ws1 - {#ws1 ! i#}"
    using i l1 by (intro other_position_mem) auto
  then have b_le: "b \<le> ws1 ! Suc i" using bmin rest by simp
  define ws2 where "ws2 = ws1[Suc i := ws1 ! pb, pb := ws1 ! Suc i]"
  have l2: "length ws2 = ?n" by (simp add: ws2_def l1)
  have m2: "mset ws2 = mset ?ws"
    unfolding ws2_def using i pb l1 m1 mset_swap[of pb ws1 "Suc i"] by simp
  have c2: "dot ws2 ?ds \<le> dot ws1 ?ds"
    unfolding ws2_def using i pb b_le deep[of pb] dsi l1 by (intro swap_dot) auto
  have w2i: "ws2 ! i = a" using pb i l1 w1i by (auto simp: ws2_def nth_list_update)
  have w2si: "ws2 ! Suc i = b" using pb i l1 by (auto simp: ws2_def nth_list_update)
  from m[OF l2] obtain t' where
    "mset (wleaves t') + {#a, b#} = mset ws2 + {#a + b#}" "wcost t' + a + b = dot ws2 ?ds"
    unfolding w2i w2si by blast
  then have "mset (wleaves t') + {#a, b#} = mset ?ws + {#a + b#}" "wcost t' + a + b \<le> wcost t"
    using m2 c1 c2 by (simp_all add: wcost_dot)
  then show ?thesis by blast
qed

section \<open>Optimality\<close>

lemma wleaves_abs_tree: "mset (wleaves (abs_tree u)) = image_mset snd (leaf_table u)"
  by (induction u rule: abs_tree.induct) auto

lemma wpl_from_lower:
  "wcost (abs_tree u) + d * sum_list (wleaves (abs_tree u)) \<le> wpl_from d u"
proof (induction d u rule: wpl_from.induct)
  case (1 d c f)
  show ?case by simp
next
  case (2 d c f a)
  have "d * sum_list (wleaves (abs_tree a)) \<le> Suc d * sum_list (wleaves (abs_tree a))" by simp
  with 2 show ?case by simp
next
  case (3 d c f b)
  have "d * sum_list (wleaves (abs_tree b)) \<le> Suc d * sum_list (wleaves (abs_tree b))" by simp
  with 3 show ?case by simp
next
  case (4 d c f a b)
  then show ?case by (simp add: algebra_simps)
qed

lemma wpl_from_strict:
  "strict_tree t \<Longrightarrow> wpl_from d t = wcost (abs_tree t) + d * sum_list (wleaves (abs_tree t))"
proof (induction t arbitrary: d rule: strict_tree.induct)
  case (1 c f)
  show ?case by simp
next
  case (2 c f a b)
  then show ?case by (simp add: algebra_simps)
qed simp_all

lemma strict_freq: "strict_tree t \<Longrightarrow> freq t = sum_list (wleaves (abs_tree t))"
  by (induction t rule: strict_tree.induct) auto

lemma merged_cost:
  "strict_tree l \<Longrightarrow> strict_tree r \<Longrightarrow>
     wcost (abs_tree (merged_node l r)) = wcost (abs_tree l) + wcost (abs_tree r) + freq l + freq r"
  by (simp add: merged_node_def strict_freq)

lemma merge_loop_optimal:
  "heap_from 0 pq \<Longrightarrow> \<forall>n \<in># mset pq. strict_tree n \<Longrightarrow> merge_loop pq = Inr [t] \<Longrightarrow>
     mset (wleaves u) = image_mset freq (mset pq) \<Longrightarrow>
     wcost (abs_tree t) \<le> forest_cost pq + wcost u"
proof (induction pq arbitrary: u rule: merge_loop_induct)
  case (stop pq)
  then have "pq = [t]" by (simp add: merge_loop_stop)
  then show ?case by (simp add: forest_cost_def)
next
  case (step pq l q1 r q2)
  let ?m = "merged_node l r"
  let ?pq' = "heappush q2 ?m"
  from heappop_Inr[OF step.hyps(2)] heappop_Inr[OF step.hyps(3)]
  have m1: "mset pq = add_mset l (mset q1)" and m2: "mset q1 = add_mset r (mset q2)" by simp_all
  from heappop_heap[OF step.prems(1) step.hyps(2)]
  have h1: "heap_from 0 q1" and lmin: "\<forall>y \<in># mset pq. freq l \<le> freq y" by simp_all
  from heappop_heap[OF h1 step.hyps(3)]
  have h2: "heap_from 0 q2" and rmin: "\<forall>y \<in># mset q1. freq r \<le> freq y" by simp_all
  have sl: "strict_tree l" and sr: "strict_tree r" and s2: "\<forall>n \<in># mset q2. strict_tree n"
    using step.prems(2) m1 m2 by auto
  have W: "mset (wleaves u) = add_mset (freq l) (add_mset (freq r) (image_mset freq (mset q2)))"
    using step.prems(4) m1 m2 by simp
  have "1 < length (wleaves u)" using step.hyps(1) step.prems(4)
    by (metis size_mset size_image_mset)
  then have hu: "0 < height_w u" by (cases u) auto
  have "\<exists>u'. mset (wleaves u') + {#freq l, freq r#} = mset (wleaves u) + {#freq l + freq r#} \<and>
              wcost u' + freq l + freq r \<le> wcost u"
  proof (rule exchange[OF hu])
    show "{#freq l, freq r#} \<subseteq># mset (wleaves u)" unfolding W by simp
    show "\<forall>x \<in># mset (wleaves u). freq l \<le> x" using lmin step.prems(4) by auto
    show "\<forall>x \<in># mset (wleaves u) - {#freq l#}. freq r \<le> x" unfolding W using rmin m2 by auto
  qed
  then obtain u' where
    u': "mset (wleaves u') + {#freq l, freq r#} = mset (wleaves u) + {#freq l + freq r#}"
    and cu: "wcost u' + freq l + freq r \<le> wcost u" by blast
  have lu: "mset (wleaves u') = image_mset freq (mset ?pq')"
    using u' unfolding W by (simp add: mset_heappush merged_node_def)
  have "merge_loop ?pq' = Inr [t]"
    using step.prems(3) step.hyps by (simp add: merge_loop_step)
  moreover have "heap_from 0 ?pq'" using h2 by (rule heappush_heap)
  moreover have "\<forall>n \<in># mset ?pq'. strict_tree n"
    using s2 sl sr by (simp add: mset_heappush strict_merged)
  ultimately have "wcost (abs_tree t) \<le> forest_cost ?pq' + wcost u'"
    using lu by (intro step.IH)
  also have "forest_cost ?pq' = forest_cost pq + freq l + freq r"
    using sl sr by (simp add: forest_cost_def mset_heappush m1 m2 merged_cost)
  finally show ?case using cu by simp
qed

text \<open>
  Claim C2. For every non-empty table \<^verbatim>\<open>build_huffman_tree\<close> returns a tree whose
  leaves are the symbols of the table with their frequencies, and whose weighted path
  length is minimal among all binary trees with these leaves.
\<close>

theorem builder_optimal:
  assumes "frequency \<noteq> []"
  shows "\<exists>t. build_huffman_tree frequency = Inr t \<and>
           leaf_table t = mset (map (\<lambda>(c, f). (Some c, f)) frequency) \<and>
           (\<forall>u. leaf_table u = mset (map (\<lambda>(c, f). (Some c, f)) frequency) \<longrightarrow>
                weighted_path_length t \<le> weighted_path_length u)"
proof -
  let ?init = "map (\<lambda>(c, f). HuffmanNode (Some c) f None None) frequency"
  from build_huffman_tree_queue[OF assms] obtain t where
    m: "merge_loop (heapify ?init) = Inr [t]" and b: "build_huffman_tree frequency = Inr t" by blast
  have st: "strict_tree t" using b by (rule build_huffman_tree_strict)
  have fr: "image_mset freq (mset (heapify ?init)) = mset (map snd frequency)"
    by (induction frequency) auto
  have fc: "forest_cost (heapify ?init) = 0"
    by (auto simp: forest_cost_def)
  have st0: "\<forall>n \<in># mset (heapify ?init). strict_tree n" by auto
  have "weighted_path_length t \<le> weighted_path_length u"
    if u: "leaf_table u = mset (map (\<lambda>(c, f). (Some c, f)) frequency)" for u
  proof -
    have "mset (wleaves (abs_tree u)) = mset (map snd frequency)"
      unfolding wleaves_abs_tree u by (induction frequency) auto
    then have "mset (wleaves (abs_tree u)) = image_mset freq (mset (heapify ?init))"
      using fr by simp
    from merge_loop_optimal[OF heapify_heap st0 m this]
    have "wcost (abs_tree t) \<le> wcost (abs_tree u)" using fc by simp
    also have "\<dots> \<le> wpl_from 0 u" using wpl_from_lower[of u 0] by simp
    finally show ?thesis using wpl_from_strict[OF st, of 0] by (simp add: weighted_path_length_def)
  qed
  moreover have "leaf_table t = mset (map (\<lambda>(c, f). (Some c, f)) frequency)"
    using b by (rule builder_leaf_table)
  ultimately show ?thesis using b by blast
qed

theorem builder_optimal_witness:
  "build_huffman_tree [(''A'', 5), (''B'', 3), (''C'', 2)] = Inr (HuffmanNode None 10 (Some (HuffmanNode (Some ''A'') 5 None None))
        (Some (HuffmanNode None 5 (Some (HuffmanNode (Some ''C'') 2 None None))
                (Some (HuffmanNode (Some ''B'') 3 None None))))) \<and>
   leaf_table (HuffmanNode None 10 (Some (HuffmanNode (Some ''A'') 5 None None))
        (Some (HuffmanNode None 5 (Some (HuffmanNode (Some ''C'') 2 None None))
                (Some (HuffmanNode (Some ''B'') 3 None None))))) = mset (map (\<lambda>(c, f). (Some c, f)) [(''A'', 5), (''B'', 3), (''C'', 2)]) \<and>
   leaf_table (HuffmanNode None 10
        (Some (HuffmanNode None 8 (Some (HuffmanNode (Some ''A'') 5 None None))
                (Some (HuffmanNode (Some ''B'') 3 None None))))
        (Some (HuffmanNode (Some ''C'') 2 None None))) = mset (map (\<lambda>(c, f). (Some c, f)) [(''A'', 5), (''B'', 3), (''C'', 2)]) \<and>
   weighted_path_length (HuffmanNode None 10 (Some (HuffmanNode (Some ''A'') 5 None None))
        (Some (HuffmanNode None 5 (Some (HuffmanNode (Some ''C'') 2 None None))
                (Some (HuffmanNode (Some ''B'') 3 None None))))) \<le> weighted_path_length (HuffmanNode None 10
        (Some (HuffmanNode None 8 (Some (HuffmanNode (Some ''A'') 5 None None))
                (Some (HuffmanNode (Some ''B'') 3 None None))))
        (Some (HuffmanNode (Some ''C'') 2 None None)))"
proof -
  have b: "build_huffman_tree [(''A'', 5), (''B'', 3), (''C'', 2)] = Inr (HuffmanNode None 10 (Some (HuffmanNode (Some ''A'') 5 None None))
        (Some (HuffmanNode None 5 (Some (HuffmanNode (Some ''C'') 2 None None))
                (Some (HuffmanNode (Some ''B'') 3 None None)))))"
    by code_simp
  have l: "leaf_table (HuffmanNode None 10
        (Some (HuffmanNode None 8 (Some (HuffmanNode (Some ''A'') 5 None None))
                (Some (HuffmanNode (Some ''B'') 3 None None))))
        (Some (HuffmanNode (Some ''C'') 2 None None))) = mset (map (\<lambda>(c, f). (Some c, f)) [(''A'', 5), (''B'', 3), (''C'', 2)])"
    by simp
  from builder_optimal[of "[(''A'', 5), (''B'', 3), (''C'', 2)]"] b l show ?thesis by auto
qed

end
